theory Spec2Isabelle
  imports Complex_Main "HOL-Library.Sublist" "HOL-Library.Log_Nat"
begin

section \<open>Strings, whitespace and the built-ins the converter calls\<close>

text \<open>
  The program is \<^verbatim>\<open>app.py\<close>: a CSS \<^verbatim>\<open>linear-gradient(...)\<close> string is parsed into
  colour tokens, each token is converted to an RGB triple, and the triples are laid out
  as the segments of a GIMP gradient file.

  Python strings are modelled as \<^typ>\<open>string\<close>, one \<^typ>\<open>char\<close> per code point, which
  covers the code points below 256 and no others: what the program does with a character
  above 255 is outside this model. A Python float is modelled as the rational number it
  stands for, and every float operation rounds its exact result to the nearest double.
\<close>

datatype error =
    InvalidFormat          \<comment> \<open>\<^verbatim>\<open>ValueError("Invalid CSS gradient format")\<close>\<close>
  | UnsupportedDirection   \<comment> \<open>\<^verbatim>\<open>ValueError("Unsupported gradient direction")\<close>\<close>
  | InvalidLiteral         \<comment> \<open>the \<^verbatim>\<open>ValueError\<close> of \<^verbatim>\<open>int(s, 16)\<close>: invalid literal\<close>
  | OSError                \<comment> \<open>\<^verbatim>\<open>open(path, 'w')\<close> failed, or writing or closing the file did\<close>
  | UnicodeEncodeError     \<comment> \<open>\<^verbatim>\<open>f.write(content)\<close> could not encode the text\<close>

text \<open>
  Whitespace as \<^verbatim>\<open>str.strip()\<close> and the \<^verbatim>\<open>\s\<close> of \<^verbatim>\<open>re\<close> on a \<^verbatim>\<open>str\<close> pattern see it:
  below 256 these are the code points 9 to 13, 28 to 32, 133 and 160. \<^verbatim>\<open>int()\<close> skips
  fewer characters around a literal: the separators 28 to 31 are not among them.
\<close>

definition is_space :: "char \<Rightarrow> bool" where
  "is_space c = (let n = (of_char c :: nat) in
     (9 \<le> n \<and> n \<le> 13) \<or> (28 \<le> n \<and> n \<le> 32) \<or> n = 133 \<or> n = 160)"

definition strip :: "string \<Rightarrow> string" where
  \<comment> \<open>\<^verbatim>\<open>s.strip()\<close>\<close>
  "strip s = rev (dropWhile is_space (rev (dropWhile is_space s)))"

definition is_int_space :: "char \<Rightarrow> bool" where
  "is_int_space c = (let n = (of_char c :: nat) in
     (9 \<le> n \<and> n \<le> 13) \<or> n = 32 \<or> n = 133 \<or> n = 160)"

definition int_strip :: "string \<Rightarrow> string" where
  \<comment> \<open>the whitespace \<^verbatim>\<open>int()\<close> skips before and after the literal\<close>
  "int_strip s = rev (dropWhile is_int_space (rev (dropWhile is_int_space s)))"

definition slice :: "nat \<Rightarrow> nat \<Rightarrow> string \<Rightarrow> string" where
  \<comment> \<open>\<^verbatim>\<open>s[i:j]\<close> for \<open>0 \<le> i \<le> j\<close>: clipped to the string, never an error\<close>
  "slice i j s = take (j - i) (drop i s)"

definition push_char :: "char \<Rightarrow> string list \<Rightarrow> string list" where
  \<comment> \<open>one more character at the front of the first field\<close>
  "push_char x fields = (x # hd fields) # tl fields"

fun split_on :: "char \<Rightarrow> string \<Rightarrow> string list" where
  \<comment> \<open>\<^verbatim>\<open>s.split(c)\<close>: empty fields are kept, the result is never empty\<close>
  "split_on c [] = [[]]"
| "split_on c (x # xs) =
     (if x = c then [] # split_on c xs else push_char x (split_on c xs))"

fun join :: "string \<Rightarrow> string list \<Rightarrow> string" where
  \<comment> \<open>\<^verbatim>\<open>sep.join(xs)\<close>\<close>
  "join sep [] = []"
| "join sep [x] = x"
| "join sep (x # y # ys) = x @ sep @ join sep (y # ys)"

fun contains :: "string \<Rightarrow> string \<Rightarrow> bool" where
  \<comment> \<open>\<^verbatim>\<open>p in s\<close> on strings: \<open>p\<close> occurs in \<open>s\<close> as a contiguous substring\<close>
  "contains p [] = (p = [])"
| "contains p (x # xs) = (prefix p (x # xs) \<or> contains p xs)"

definition digit_char :: "nat \<Rightarrow> char" where
  "digit_char d = char_of (48 + d)"

fun str_nat :: "nat \<Rightarrow> string" where
  "str_nat n = (if n < 10 then [digit_char n] else str_nat (n div 10) @ [digit_char (n mod 10)])"

declare str_nat.simps [simp del]

definition str_int :: "int \<Rightarrow> string" where
  \<comment> \<open>\<^verbatim>\<open>str(i)\<close> on an \<^verbatim>\<open>int\<close>\<close>
  "str_int i = (if i < 0 then CHR ''-'' # str_nat (nat (- i)) else str_nat (nat i))"

subsection \<open>\<^verbatim>\<open>int(s, 16)\<close>\<close>

definition hex_val :: "char \<Rightarrow> nat option" where
  "hex_val c = (let n = (of_char c :: nat) in
     if 48 \<le> n \<and> n \<le> 57 then Some (n - 48)
     else if 97 \<le> n \<and> n \<le> 102 then Some (n - 87)
     else if 65 \<le> n \<and> n \<le> 70 then Some (n - 55)
     else None)"

definition is_hex :: "char \<Rightarrow> bool" where
  "is_hex c = (hex_val c \<noteq> None)"

fun hex_digits :: "string \<Rightarrow> nat \<Rightarrow> nat option" where
  \<comment> \<open>the digit loop: single underscores between digits are skipped, one at the end
      or two in a row are an error, as is any other character\<close>
  "hex_digits [] acc = Some acc"
| "hex_digits (c # cs) acc =
     (if c = CHR ''_'' then
        (case cs of [] \<Rightarrow> None
         | d # _ \<Rightarrow> if d = CHR ''_'' then None else hex_digits cs acc)
      else (case hex_val c of None \<Rightarrow> None
            | Some v \<Rightarrow> hex_digits cs (16 * acc + v)))"

definition strip_sign :: "string \<Rightarrow> string" where
  "strip_sign t = (case t of [] \<Rightarrow> t | c # r \<Rightarrow> if c = CHR ''+'' \<or> c = CHR ''-'' then r else t)"

definition strip_0x :: "string \<Rightarrow> string" where
  \<comment> \<open>the base prefix \<^verbatim>\<open>0x\<close> or \<^verbatim>\<open>0X\<close>, and one underscore right after it\<close>
  "strip_0x u =
     (case u of
        c # x # r \<Rightarrow>
          if c = CHR ''0'' \<and> (x = CHR ''x'' \<or> x = CHR ''X'')
          then (case r of [] \<Rightarrow> r | y # r' \<Rightarrow> if y = CHR ''_'' then r' else r)
          else u
      | _ \<Rightarrow> u)"

definition int16 :: "string \<Rightarrow> error + int" where
  \<comment> \<open>\<^verbatim>\<open>int(s, 16)\<close> on code points below 256: surrounding whitespace, an optional sign,
      an optional \<^verbatim>\<open>0x\<close> prefix, then at least one digit, the first character not an
      underscore. (Above 255 Python also takes other decimal digits and spaces.)\<close>
  "int16 s =
     (let t = int_strip s;
          sgn = (if prefix ''-'' t then - 1 else (1 :: int));
          v = strip_0x (strip_sign t)
      in case v of
           [] \<Rightarrow> Inl InvalidLiteral
         | c # _ \<Rightarrow>
             if c = CHR ''_'' then Inl InvalidLiteral
             else (case hex_digits v 0 of
                     None \<Rightarrow> Inl InvalidLiteral
                   | Some n \<Rightarrow> Inr (sgn * int n)))"

subsection \<open>Float arithmetic\<close>

text \<open>
  A double has 53 significant bits, and division and addition give the double nearest to
  the exact result, a tie going to the even one. The exponent is not bounded here: the
  floats of the program are quotients \<open>i / n\<close> with \<open>0 \<le> i \<le> n\<close>, quotients \<open>k / 255\<close> with
  \<open>\<bar>k\<bar> \<le> 255\<close>, sums of two of the first and their halves, all far from overflow and
  from the subnormal range.
\<close>

definition pow2 :: "int \<Rightarrow> rat" where
  "pow2 e = (if 0 \<le> e then 2 ^ nat e else 1 / 2 ^ nat (- e))"

definition exponent :: "rat \<Rightarrow> int" where
  \<comment> \<open>for \<open>x > 0\<close>, the \<open>e\<close> with \<open>pow2 e \<le> x < pow2 (e + 1)\<close>\<close>
  "exponent x = (if 1 \<le> x then bitlen \<lfloor>x\<rfloor> - 1 else - bitlen (\<lceil>1 / x\<rceil> - 1))"

definition round_half_even :: "rat \<Rightarrow> int" where
  "round_half_even m =
     (let f = \<lfloor>m\<rfloor>; d = m - of_int f
      in if d < 1 / 2 then f else if 1 / 2 < d then f + 1 else if even f then f else f + 1)"

definition to_double :: "rat \<Rightarrow> rat" where
  \<comment> \<open>the double nearest to \<open>x\<close>\<close>
  "to_double x =
     (if x = 0 then 0
      else let u = pow2 (exponent \<bar>x\<bar> - 52)
           in sgn x * of_int (round_half_even (\<bar>x\<bar> / u)) * u)"

definition float_div :: "rat \<Rightarrow> rat \<Rightarrow> rat" where
  \<comment> \<open>\<^verbatim>\<open>a / b\<close> with a float result, \<open>b\<close> not zero\<close>
  "float_div a b = to_double (a / b)"

definition float_add :: "rat \<Rightarrow> rat \<Rightarrow> rat" where
  "float_add a b = to_double (a + b)"

section \<open>The colour converter\<close>

type_synonym rgb = "rat \<times> rat \<times> rat"

definition hex_to_rgb :: "string \<Rightarrow> error + rgb" where
  \<comment> \<open>\<^verbatim>\<open>hex_color.lstrip('#')\<close>, then \<^verbatim>\<open>int(hex_color[i:i+2], 16) / 255.0\<close> for
      \<open>i\<close> in 0, 2, 4, the first failing \<^verbatim>\<open>int\<close> raising\<close>
  "hex_to_rgb hex_color =
     (let h = dropWhile (\<lambda>c. c = CHR ''#'') hex_color in
      case int16 (slice 0 2 h) of Inl e \<Rightarrow> Inl e
      | Inr r \<Rightarrow>
     (case int16 (slice 2 4 h) of Inl e \<Rightarrow> Inl e
      | Inr g \<Rightarrow>
     (case int16 (slice 4 6 h) of Inl e \<Rightarrow> Inl e
      | Inr b \<Rightarrow> Inr (float_div (of_int r) 255, float_div (of_int g) 255,
                       float_div (of_int b) 255))))"

section \<open>The gradient string parser\<close>

text \<open>
  The pattern of \<^verbatim>\<open>parse_css_gradient\<close> is a sequence of literals and of greedy
  repetitions of one character class, two of them capturing. \<^verbatim>\<open>re.match\<close> anchors the
  pattern at the start of the string only, tries the longest repetition first and gives
  characters back one at a time until the rest of the pattern matches; the first success
  is the match.
\<close>

datatype item =
    Lit string                       \<comment> \<open>literal text\<close>
  | Rep nat "char \<Rightarrow> bool" bool       \<comment> \<open>at least \<open>n\<close> characters of a class, greedy; captured or not\<close>

fun first_some :: "'a option list \<Rightarrow> 'a option" where
  "first_some [] = None"
| "first_some (None # xs) = first_some xs"
| "first_some (Some x # xs) = Some x"

fun match_items :: "item list \<Rightarrow> string \<Rightarrow> string list option" where
  "match_items [] s = Some []"
| "match_items (Lit l # its) s =
     (if prefix l s then match_items its (drop (length l) s) else None)"
| "match_items (Rep mn cls cap # its) s =
     first_some
       (map (\<lambda>k. map_option (\<lambda>gs. if cap then take k s # gs else gs)
                     (match_items its (drop k s)))
            (rev [mn ..< Suc (length (takeWhile cls s))]))"

definition pattern :: "item list" where
  \<comment> \<open>\<^verbatim>\<open>r'linear-gradient\(([^,]+),\s*(.+)\)'\<close>; the dot does not match a newline\<close>
  "pattern =
     [Lit ''linear-gradient('',
      Rep 1 (\<lambda>c. c \<noteq> CHR '','') True,
      Lit '','',
      Rep 0 is_space False,
      Rep 1 (\<lambda>c. c \<noteq> CHR 0x0A) True,
      Lit '')'']"

definition re_match :: "string \<Rightarrow> (string \<times> string) option" where
  \<comment> \<open>\<^verbatim>\<open>re.match(pattern, css_gradient)\<close> with its two groups\<close>
  "re_match css_gradient =
     (case match_items pattern css_gradient of
        Some [direction, colors_str] \<Rightarrow> Some (direction, colors_str)
      | _ \<Rightarrow> None)"

definition parse_css_gradient :: "string \<Rightarrow> error + string list" where
  "parse_css_gradient css_gradient =
     (case re_match css_gradient of
        None \<Rightarrow> Inl InvalidFormat
      | Some (direction, colors_str) \<Rightarrow>
          if \<not> contains ''to right'' direction then Inl UnsupportedDirection
          else Inr (map strip (split_on CHR '','' colors_str)))"

section \<open>The segment builder\<close>

text \<open>
  A segment is the Python list of fifteen numbers, floats and ints mixed; \<^verbatim>\<open>str\<close> prints
  each. \<^verbatim>\<open>str\<close> on a float is the interpreter's shortest round-trip representation, which
  is not part of the program: it is the parameter \<open>str_float\<close> below.
\<close>

datatype num = PyFloat rat | PyInt int

fun str_num :: "(rat \<Rightarrow> string) \<Rightarrow> num \<Rightarrow> string" where
  "str_num str_float (PyFloat x) = str_float x"
| "str_num str_float (PyInt i) = str_int i"

definition segment :: "int \<Rightarrow> nat \<Rightarrow> rgb \<Rightarrow> rgb \<Rightarrow> num list" where
  "segment num_segments i left_color right_color =
     (let left_endpoint = float_div (of_nat i) (of_int num_segments);
          right_endpoint = float_div (of_nat i + 1) (of_int num_segments);
          midpoint = float_div (float_add left_endpoint right_endpoint) 2
      in case (left_color, right_color) of ((lr, lg, lb), (rr, rg, rb)) \<Rightarrow>
         [PyFloat left_endpoint, PyFloat midpoint, PyFloat right_endpoint,
          PyFloat lr, PyFloat lg, PyFloat lb, PyFloat 1,
          PyFloat rr, PyFloat rg, PyFloat rb, PyFloat 1,
          PyInt 0, PyInt 0, PyInt 0, PyInt 0])"

fun segments_loop :: "string list \<Rightarrow> int \<Rightarrow> nat list \<Rightarrow> num list list \<Rightarrow> error + num list list" where
  \<comment> \<open>\<^verbatim>\<open>for i in range(num_segments)\<close>: the indices still to visit and the segments so far.
      Both \<open>i\<close> and \<open>i + 1\<close> are below \<^verbatim>\<open>len(colors)\<close>, and the division happens only
      inside the loop, where \<open>num_segments \<ge> 1\<close>\<close>
  "segments_loop colors num_segments [] segments = Inr segments"
| "segments_loop colors num_segments (i # rest) segments =
     (case hex_to_rgb (colors ! i) of Inl e \<Rightarrow> Inl e
      | Inr left_color \<Rightarrow>
     (case hex_to_rgb (colors ! (i + 1)) of Inl e \<Rightarrow> Inl e
      | Inr right_color \<Rightarrow>
          segments_loop colors num_segments rest
            (segments @ [segment num_segments i left_color right_color])))"

definition build_segments :: "string list \<Rightarrow> error + num list list" where
  "build_segments colors =
     (let num_segments = int (length colors) - 1
      in segments_loop colors num_segments [0 ..< nat num_segments] [])"

definition segment_line :: "(rat \<Rightarrow> string) \<Rightarrow> num list \<Rightarrow> string" where
  \<comment> \<open>\<^verbatim>\<open>" ".join(map(str, segment))\<close>\<close>
  "segment_line str_float seg = join '' '' (map (str_num str_float) seg)"

definition create_gimp_gradient :: "(rat \<Rightarrow> string) \<Rightarrow> string \<Rightarrow> string list \<Rightarrow> error + string" where
  "create_gimp_gradient str_float name colors =
     (let num_segments = int (length colors) - 1
      in case build_segments colors of Inl e \<Rightarrow> Inl e
         | Inr segments \<Rightarrow>
             Inr (join [CHR 0x0A]
                    ([''GIMP Gradient'', ''Name: '' @ name, str_int num_segments]
                     @ map (segment_line str_float) segments)))"

section \<open>The file writer and the command line\<close>

record world =
  files :: "string \<rightharpoonup> string"     \<comment> \<open>the file system: path to content\<close>
  openable :: "string \<Rightarrow> bool"      \<comment> \<open>whether \<^verbatim>\<open>open(path, 'w')\<close> succeeds\<close>
  write_failure :: "string \<Rightarrow> string \<Rightarrow> (error \<times> string) option"
    \<comment> \<open>for a path and a text: \<open>None\<close> when writing and closing succeed, or the error raised
        and what the file is left holding\<close>
  stdout :: "string list"           \<comment> \<open>the lines printed so far\<close>

definition write_gimp_gradient_file :: "string \<Rightarrow> string \<Rightarrow> world \<Rightarrow> (error + unit) \<times> world" where
  \<comment> \<open>\<^verbatim>\<open>open(file_path, 'w')\<close> creates or empties the file before anything is written\<close>
  "write_gimp_gradient_file content file_path w =
     (if \<not> openable w file_path then (Inl OSError, w)
      else case write_failure w file_path content of
             None \<Rightarrow> (Inr (), w\<lparr>files := (files w)(file_path \<mapsto> content)\<rparr>)
           | Some (e, left) \<Rightarrow> (Inl e, w\<lparr>files := (files w)(file_path \<mapsto> left)\<rparr>))"

definition path_join :: "string \<Rightarrow> string \<Rightarrow> string" where
  \<comment> \<open>\<^verbatim>\<open>os.path.join(a, b)\<close> of \<^verbatim>\<open>posixpath\<close>\<close>
  "path_join a b =
     (if prefix ''/'' b then b
      else if a = [] \<or> suffix ''/'' a then a @ b
      else a @ ''/'' @ b)"

definition main :: "(rat \<Rightarrow> string) \<Rightarrow> (string \<Rightarrow> string) \<Rightarrow> string \<Rightarrow> string \<Rightarrow> string \<Rightarrow> world
                      \<Rightarrow> (error + unit) \<times> world" where
  \<comment> \<open>the parsed arguments are \<open>css_gradient\<close>, \<open>gradient_name\<close> and \<open>output\<close>;
      \<^verbatim>\<open>os.path.expanduser\<close> depends on the environment and is a parameter\<close>
  "main str_float expanduser css_gradient gradient_name output w =
     (let gimp_gradient_dir = expanduser output;
          gimp_gradient_file = path_join gimp_gradient_dir (gradient_name @ ''.ggr'')
      in case parse_css_gradient css_gradient of Inl e \<Rightarrow> (Inl e, w)
         | Inr colors \<Rightarrow>
        (case create_gimp_gradient str_float gradient_name colors of Inl e \<Rightarrow> (Inl e, w)
         | Inr gimp_gradient_content \<Rightarrow>
        (case write_gimp_gradient_file gimp_gradient_content gimp_gradient_file w of
           (Inl e, w') \<Rightarrow> (Inl e, w')
         | (Inr u, w') \<Rightarrow>
             (Inr (), w'\<lparr>stdout := stdout w' @ [''GIMP gradient saved to: '' @ gimp_gradient_file]\<rparr>))))"

section \<open>Notions used to state the properties\<close>

definition byte_of :: "char \<Rightarrow> char \<Rightarrow> nat" where
  \<comment> \<open>the base-16 value of a two-digit substring\<close>
  "byte_of a b = 16 * the (hex_val a) + the (hex_val b)"

definition channel :: "char \<Rightarrow> char \<Rightarrow> rat" where
  \<comment> \<open>the two-digit value divided by \<^verbatim>\<open>255.0\<close>\<close>
  "channel a b = float_div (of_nat (byte_of a b)) 255"

definition hex_literal :: "string \<Rightarrow> bool" where
  \<comment> \<open>one or more hexadecimal digits, after surrounding whitespace and one sign\<close>
  "hex_literal t = (let u = strip_sign (int_strip t) in u \<noteq> [] \<and> list_all is_hex u)"

definition converts :: "string \<Rightarrow> bool" where
  "converts c = (case hex_to_rgb c of Inl e \<Rightarrow> False | Inr x \<Rightarrow> True)"

definition rgb_of :: "string \<Rightarrow> rgb" where
  "rgb_of c = (case hex_to_rgb c of Inl e \<Rightarrow> (0, 0, 0) | Inr x \<Rightarrow> x)"

definition direction_clause :: "string \<Rightarrow> string" where
  \<comment> \<open>the text between the opening parenthesis of \<^verbatim>\<open>linear-gradient(\<close> and the first comma\<close>
  "direction_clause s = takeWhile (\<lambda>c. c \<noteq> CHR '','') (drop 16 s)"

definition gradient_shape :: "string \<Rightarrow> bool" where
  \<comment> \<open>the general shape \<^verbatim>\<open>linear-gradient(<direction>, <colors...>)\<close>: a non-empty direction
      without a comma, a comma, optional whitespace, a non-empty colour text on one line,
      a closing parenthesis, and anything after it\<close>
  "gradient_shape s =
     (\<exists>d w c rest.
        s = ''linear-gradient('' @ d @ '','' @ w @ c @ '')'' @ rest
      \<and> d \<noteq> [] \<and> CHR '','' \<notin> set d \<and> list_all is_space w
      \<and> c \<noteq> [] \<and> CHR 0x0A \<notin> set c)"

definition repr_sample :: "rat \<Rightarrow> string" where
  \<comment> \<open>what \<^verbatim>\<open>str\<close> prints for the floats 0.0, 0.25, 0.5, 0.75 and 1.0, to run the builder
      on two or three colours with channels 0 and 1; no other value is printed there\<close>
  "repr_sample x =
     (if x = 0 then ''0.0'' else if x = 1 / 4 then ''0.25'' else if x = 1 / 2 then ''0.5''
      else if x = 3 / 4 then ''0.75'' else if x = 1 then ''1.0'' else ''?'')"

section \<open>Facts about the built-ins\<close>

lemma pow2_pos: "0 < pow2 e"
  by (simp add: pow2_def)

lemma pow2_nat: "pow2 (int k) = 2 ^ k"
  by (simp add: pow2_def)

lemma pow2_neg: "pow2 (- int k) = 1 / 2 ^ k"
  by (cases "k = 0") (simp_all add: pow2_def)

lemma pow2_ge_2: "0 < e \<Longrightarrow> 2 \<le> pow2 e"
proof -
  assume "0 < e"
  then obtain m where "nat e = Suc m" by (cases "nat e") auto
  with \<open>0 < e\<close> show ?thesis by (simp add: pow2_def)
qed

lemma exponent_lower:
  assumes "0 < x"
  shows "pow2 (exponent x) \<le> x"
proof (cases "1 \<le> x")
  case True
  then have f: "0 < \<lfloor>x\<rfloor>" by simp
  from bitlen_bounds [OF f] have "2 ^ nat (bitlen \<lfloor>x\<rfloor> - 1) \<le> \<lfloor>x\<rfloor>" by simp
  then have "(of_int (2 ^ nat (bitlen \<lfloor>x\<rfloor> - 1)) :: rat) \<le> of_int \<lfloor>x\<rfloor>"
    by (simp only: of_int_le_iff)
  also have "\<dots> \<le> x" by simp
  finally have "(2 :: rat) ^ nat (bitlen \<lfloor>x\<rfloor> - 1) \<le> x" by simp
  moreover have "0 \<le> bitlen \<lfloor>x\<rfloor> - 1" using f bitlen_nonneg [of "\<lfloor>x\<rfloor>"] bitlen_bounds [OF f]
    by (cases "bitlen \<lfloor>x\<rfloor> = 0") auto
  ultimately show ?thesis using True by (simp add: exponent_def pow2_def)
next
  case False
  define c where "c = \<lceil>1 / x\<rceil>"
  define j where "j = nat (bitlen (c - 1))"
  have y: "1 < 1 / x" using assms False by simp
  then have c: "2 \<le> c" unfolding c_def by linarith
  then have c1: "0 < c - 1" by simp
  have jb: "bitlen (c - 1) = int j" using bitlen_nonneg [of "c - 1"] by (simp add: j_def)
  from bitlen_bounds [OF c1] have "c - 1 < 2 ^ j" by (simp add: j_def)
  then have "c \<le> 2 ^ j" by simp
  then have "(of_int c :: rat) \<le> 2 ^ j" by simp
  moreover have "1 / x \<le> of_int c" unfolding c_def by (rule le_of_int_ceiling)
  ultimately have "1 / x \<le> 2 ^ j" by (rule order_trans [rotated])
  then have "1 / 2 ^ j \<le> x" using assms by (simp add: field_simps)
  moreover have "exponent x = - int j" using False by (simp add: exponent_def c_def [symmetric] jb)
  ultimately show ?thesis by (simp add: pow2_neg)
qed

lemma round_half_even_cases: "round_half_even m = \<lfloor>m\<rfloor> \<or> round_half_even m = \<lfloor>m\<rfloor> + 1"
  by (simp add: round_half_even_def Let_def)

lemma round_half_even_int: "round_half_even (of_int k) = k"
  by (simp add: round_half_even_def)

lemma round_half_even_mono:
  assumes "a \<le> b"
  shows "round_half_even a \<le> round_half_even b"
proof (cases "\<lfloor>a\<rfloor> = \<lfloor>b\<rfloor>")
  case True
  have "a - of_int \<lfloor>b\<rfloor> \<le> b - of_int \<lfloor>b\<rfloor>" using assms by simp
  then show ?thesis unfolding round_half_even_def Let_def True by auto
next
  case False
  with assms have "\<lfloor>a\<rfloor> < \<lfloor>b\<rfloor>" using floor_mono [OF assms] by simp
  then have "round_half_even a \<le> \<lfloor>b\<rfloor>" using round_half_even_cases [of a] by auto
  also have "\<dots> \<le> round_half_even b" using round_half_even_cases [of b] by auto
  finally show ?thesis .
qed

lemma round_half_even_nonneg: "0 \<le> m \<Longrightarrow> 0 \<le> round_half_even m"
  using round_half_even_mono [of 0 m] round_half_even_int [of 0] by simp

lemma to_double_unit:
  assumes "0 \<le> x" and "x \<le> 1"
  shows "0 \<le> to_double x \<and> to_double x \<le> 1"
proof (cases "x = 0")
  case True
  then show ?thesis by (simp add: to_double_def)
next
  case False
  with assms have x: "0 < x" by simp
  define e where "e = exponent x"
  have "pow2 e \<le> 1" using exponent_lower [OF x] assms(2) by (simp add: e_def)
  then have e: "e \<le> 0" using pow2_ge_2 [of e] by (cases "0 < e") auto
  define k where "k = nat (52 - e)"
  have u: "pow2 (e - 52) = 1 / 2 ^ k"
    using e pow2_neg [of k] by (simp add: k_def)
  have "x / (1 / 2 ^ k) \<le> of_int (2 ^ k)" using assms(2) by simp
  from round_half_even_mono [OF this]
  have r: "round_half_even (x / (1 / 2 ^ k)) \<le> 2 ^ k" by (simp only: round_half_even_int)
  have n: "0 \<le> round_half_even (x / (1 / 2 ^ k))"
    using x by (intro round_half_even_nonneg) simp
  have d: "to_double x = of_int (round_half_even (x / (1 / 2 ^ k))) * (1 / 2 ^ k)"
    using x by (simp add: to_double_def e_def [symmetric] u)
  from r have "(of_int (round_half_even (x / (1 / 2 ^ k))) :: rat) \<le> of_int (2 ^ k)"
    by (simp only: of_int_le_iff)
  then have "(of_int (round_half_even (x / (1 / 2 ^ k))) :: rat) * (1 / 2 ^ k) \<le> 1"
    by (simp add: field_simps)
  moreover have "0 \<le> (of_int (round_half_even (x / (1 / 2 ^ k))) :: rat) * (1 / 2 ^ k)"
    using n by simp
  ultimately show ?thesis unfolding d by simp
qed

lemma exponent_upper:
  assumes "0 < x"
  shows "x < pow2 (exponent x + 1)"
proof (cases "1 \<le> x")
  case True
  then have f: "0 < \<lfloor>x\<rfloor>" by simp
  from bitlen_bounds [OF f] have "\<lfloor>x\<rfloor> + 1 \<le> 2 ^ nat (bitlen \<lfloor>x\<rfloor>)" by simp
  then have "(of_int (\<lfloor>x\<rfloor> + 1) :: rat) \<le> 2 ^ nat (bitlen \<lfloor>x\<rfloor>)" by (simp del: of_int_add)
  moreover have "x < of_int (\<lfloor>x\<rfloor> + 1)" by linarith
  ultimately have "x < 2 ^ nat (bitlen \<lfloor>x\<rfloor>)" by (rule less_le_trans [rotated])
  moreover have "0 \<le> bitlen \<lfloor>x\<rfloor>" by (rule bitlen_nonneg)
  ultimately show ?thesis using True by (simp add: exponent_def pow2_def)
next
  case False
  define c where "c = \<lceil>1 / x\<rceil>"
  define j where "j = nat (bitlen (c - 1))"
  have y: "1 < 1 / x" using assms False by simp
  then have c: "2 \<le> c" unfolding c_def by linarith
  then have c1: "0 < c - 1" by simp
  have jb: "bitlen (c - 1) = int j" using bitlen_nonneg [of "c - 1"] by (simp add: j_def)
  have j1: "1 \<le> j" using bitlen_bounds [OF c1] c1 by (cases j) (auto simp: j_def)
  from bitlen_bounds [OF c1] have "2 ^ nat (int j - 1) \<le> c - 1" by (simp add: jb)
  moreover have "nat (int j - 1) = j - 1" by simp
  ultimately have "2 ^ (j - 1) \<le> c - 1" by simp
  then have "(2 :: rat) ^ (j - 1) \<le> of_int (c - 1)"
    by (metis of_int_le_iff of_int_numeral of_int_power)
  moreover have "(of_int (c - 1) :: rat) < 1 / x" unfolding c_def by linarith
  ultimately have "(2 :: rat) ^ (j - 1) < 1 / x" by (rule le_less_trans)
  then have "x < 1 / 2 ^ (j - 1)" using assms by (simp add: field_simps)
  moreover have "exponent x + 1 = - int (j - 1)"
    using False j1 by (simp add: exponent_def c_def [symmetric] jb)
  ultimately show ?thesis by (simp only: pow2_neg)
qed

lemma round_half_even_near: "\<bar>of_int (round_half_even m) - m\<bar> \<le> 1 / 2"
proof -
  define d where "d = m - of_int \<lfloor>m\<rfloor>"
  have d: "0 \<le> d" "d < 1" unfolding d_def by linarith+
  have "of_int (round_half_even m) - m =
          (if d < 1 / 2 then - d else if 1 / 2 < d then 1 - d
           else if even \<lfloor>m\<rfloor> then - d else 1 - d)"
    unfolding round_half_even_def Let_def d_def by auto
  moreover have "\<bar>- d\<bar> \<le> 1 / 2" if "d \<le> 1 / 2" using that d by simp
  moreover have "\<bar>1 - d\<bar> \<le> 1 / 2" if "1 / 2 \<le> d" using that d by simp
  ultimately show ?thesis by (auto simp: not_less split: if_splits)
qed

lemma to_double_near:
  assumes "0 < x"
  shows "\<bar>to_double x - x\<bar> \<le> pow2 (exponent x - 52) / 2"
proof -
  define u where "u = pow2 (exponent x - 52)"
  have u: "0 < u" unfolding u_def by (rule pow2_pos)
  have "to_double x - x = (of_int (round_half_even (x / u)) - x / u) * u"
    using assms u by (simp add: to_double_def u_def [symmetric] field_simps)
  then have "\<bar>to_double x - x\<bar> = \<bar>of_int (round_half_even (x / u)) - x / u\<bar> * u"
    using u by (simp add: abs_mult)
  also have "\<dots> \<le> 1 / 2 * u"
    using round_half_even_near [of "x / u"] u by (intro mult_right_mono) simp_all
  finally show ?thesis by (simp add: u_def)
qed

lemma to_double_values:
  "to_double 0 = 0" "to_double 1 = 1" "to_double (1 / 2) = 1 / 2"
  "to_double (1 / 4) = 1 / 4" "to_double (3 / 4) = 3 / 4" "to_double (3 / 2) = 3 / 2"
  by code_simp+

lemma is_hex_not: "is_hex c \<Longrightarrow> \<not> is_int_space c \<and> c \<noteq> CHR ''+'' \<and> c \<noteq> CHR ''-'' \<and> c \<noteq> CHR ''_''
   \<and> c \<noteq> CHR ''x'' \<and> c \<noteq> CHR ''X'' \<and> c \<noteq> CHR ''#''"
  by (auto simp: is_hex_def hex_val_def is_int_space_def Let_def split: if_splits)

lemma hex_val_lt: "hex_val c = Some v \<Longrightarrow> v < 16"
  by (auto simp: hex_val_def Let_def split: if_splits)

lemma byte_of_le: "is_hex a \<Longrightarrow> is_hex b \<Longrightarrow> byte_of a b \<le> 255"
proof -
  assume "is_hex a" "is_hex b"
  then obtain va vb where v: "hex_val a = Some va" "hex_val b = Some vb"
    by (auto simp: is_hex_def)
  with hex_val_lt [of a va] hex_val_lt [of b vb] show ?thesis
    by (simp add: byte_of_def)
qed

lemma channel_range: "is_hex a \<Longrightarrow> is_hex b \<Longrightarrow> 0 \<le> channel a b \<and> channel a b \<le> 1"
proof -
  assume "is_hex a" "is_hex b"
  then have "byte_of a b \<le> 255" by (rule byte_of_le)
  then have "(0 :: rat) \<le> of_nat (byte_of a b) / 255" and "(of_nat (byte_of a b) :: rat) / 255 \<le> 1"
    by simp_all
  then show ?thesis unfolding channel_def float_div_def by (rule to_double_unit)
qed

lemma strip_two: "\<not> is_int_space a \<Longrightarrow> \<not> is_int_space b \<Longrightarrow> int_strip [a, b] = [a, b]"
  by (simp add: int_strip_def)

lemma int16_two:
  assumes "is_hex a" "is_hex b"
  shows "int16 [a, b] = Inr (int (byte_of a b))"
proof -
  from assms obtain va vb where v: "hex_val a = Some va" "hex_val b = Some vb"
    by (auto simp: is_hex_def)
  note na = is_hex_not [OF assms(1)] and nb = is_hex_not [OF assms(2)]
  have s: "int_strip [a, b] = [a, b]" using na nb by (simp add: strip_two)
  show ?thesis using na nb v
    by (auto simp add: int16_def s strip_sign_def strip_0x_def byte_of_def)
qed

lemma hex_to_rgb_digits:
  assumes "\<forall>x \<in> set [a, b, c, d, e, f]. is_hex x"
  shows "hex_to_rgb (replicate k CHR ''#'' @ [a, b, c, d, e, f] @ rest)
         = Inr (channel a b, channel c d, channel e f)"
proof -
  have a: "a \<noteq> CHR ''#''" using assms is_hex_not [of a] by simp
  have h: "dropWhile (\<lambda>c. c = CHR ''#'') (replicate k CHR ''#'' @ a # b # c # d # e # f # rest)
           = a # b # c # d # e # f # rest"
    using a by (simp add: dropWhile_append)
  show ?thesis using assms
    by (simp add: hex_to_rgb_def h slice_def int16_two channel_def)
qed


lemma not_hex_chars:
  "\<not> is_hex CHR ''_''" "\<not> is_hex CHR ''x''" "\<not> is_hex CHR ''X''" "\<not> is_hex CHR ''+''" "\<not> is_hex CHR ''-''"
  "is_hex CHR ''0''"
  by (simp_all add: is_hex_def hex_val_def)

lemma length_strip: "length (int_strip s) \<le> length s"
proof -
  have "length (int_strip s) \<le> length (dropWhile is_int_space s)"
    using length_dropWhile_le [of is_int_space "rev (dropWhile is_int_space s)"]
    by (simp add: int_strip_def)
  also have "\<dots> \<le> length s" by (rule length_dropWhile_le)
  finally show ?thesis .
qed

lemma short_cases: "length (t :: 'a list) \<le> 2 \<Longrightarrow> t = [] \<or> (\<exists>a. t = [a]) \<or> (\<exists>a b. t = [a, b])"
  by (cases t; cases "tl t"; cases "tl (tl t)") auto

lemma int16_core_short:
  assumes "length t \<le> 2"
  shows "(case strip_0x (strip_sign t) of [] \<Rightarrow> Inl InvalidLiteral
          | c # _ \<Rightarrow> if c = CHR ''_'' then Inl InvalidLiteral
                     else (case hex_digits (strip_0x (strip_sign t)) 0 of None \<Rightarrow> Inl InvalidLiteral
                           | Some n \<Rightarrow> Inr (sg * int n))) = Inl InvalidLiteral
         \<longleftrightarrow> \<not> (strip_sign t \<noteq> [] \<and> list_all is_hex (strip_sign t))"
proof -
  consider "t = []" | a where "t = [a]" | a b where "t = [a, b]"
    using short_cases [OF assms] by blast
  then show ?thesis
  proof cases
    case 1
    then show ?thesis by (simp add: strip_sign_def strip_0x_def)
  next
    case 2
    then show ?thesis using not_hex_chars
      by (cases "hex_val a") (auto simp: strip_sign_def strip_0x_def is_hex_def)
  next
    case 3
    then show ?thesis using not_hex_chars
      by (cases "hex_val a"; cases "hex_val b") (auto simp: strip_sign_def strip_0x_def is_hex_def)
  qed
qed

lemma int16_short:
  "length t \<le> 2 \<Longrightarrow> (int16 t = Inl InvalidLiteral) = (\<not> hex_literal t)"
  using int16_core_short [of "int_strip t"] length_strip [of t]
  by (simp add: int16_def hex_literal_def Let_def)

lemma int16_error: "int16 t = Inl e \<Longrightarrow> e = InvalidLiteral"
  by (auto simp: int16_def Let_def split: list.splits option.splits if_splits)

lemma length_slice: "length (slice i (i + 2) h) \<le> 2"
  by (simp add: slice_def)

lemma is_hex_sample: "list_all is_hex ''fbb040''"
  by (simp add: is_hex_def hex_val_def)

section \<open>The colour converter: properties\<close>

text \<open>
  Claim C3. For a colour token that is \<^verbatim>\<open>#\<close> followed by six hexadecimal digits,
  \<^verbatim>\<open>hex_to_rgb\<close> drops the \<^verbatim>\<open>#\<close>, reads the three two-digit substrings in base 16
  (\<open>byte_of\<close>) and divides each by 255; the three channels lie between 0 and 1.
  In particular \<^verbatim>\<open>#000000\<close> gives (0, 0, 0) and \<^verbatim>\<open>#ffffff\<close> gives (1, 1, 1).
\<close>

theorem hex_to_rgb_six_digits:
  assumes "list_all is_hex [a, b, c, d, e, f]"
  shows "hex_to_rgb (CHR ''#'' # [a, b, c, d, e, f]) = Inr (channel a b, channel c d, channel e f)
         \<and> int16 [a, b] = Inr (int (byte_of a b))
         \<and> int16 [c, d] = Inr (int (byte_of c d))
         \<and> int16 [e, f] = Inr (int (byte_of e f))
         \<and> 0 \<le> channel a b \<and> channel a b \<le> 1
         \<and> 0 \<le> channel c d \<and> channel c d \<le> 1
         \<and> 0 \<le> channel e f \<and> channel e f \<le> 1
         \<and> hex_to_rgb ''#000000'' = Inr (0, 0, 0)
         \<and> hex_to_rgb ''#ffffff'' = Inr (1, 1, 1)"
proof -
  have h: "\<forall>x \<in> set [a, b, c, d, e, f]. is_hex x" using assms by simp
  have 1: "hex_to_rgb (CHR ''#'' # [a, b, c, d, e, f]) = Inr (channel a b, channel c d, channel e f)"
    using hex_to_rgb_digits [OF h, of 1 "[]"] by simp
  have z: "\<forall>x \<in> set ''000000''. is_hex x" and o: "\<forall>x \<in> set ''ffffff''. is_hex x"
    by (simp_all add: is_hex_def hex_val_def)
  have 2: "hex_to_rgb ''#000000'' = Inr (0, 0, 0)"
    using hex_to_rgb_digits [OF z, of 1 "[]"]
    by (simp add: channel_def byte_of_def hex_val_def float_div_def to_double_values)
  have 3: "hex_to_rgb ''#ffffff'' = Inr (1, 1, 1)"
    using hex_to_rgb_digits [OF o, of 1 "[]"]
    by (simp add: channel_def byte_of_def hex_val_def float_div_def to_double_values)
  show ?thesis using 1 2 3 assms by (simp add: int16_two channel_range)
qed

text \<open>The theorem at the token \<^verbatim>\<open>#fbb040\<close>.\<close>

theorem hex_to_rgb_six_digits_witness:
  "list_all is_hex ''fbb040''
   \<and> hex_to_rgb ''#fbb040''
       = Inr (to_double (251 / 255), to_double (176 / 255), to_double (64 / 255))"
proof -
  have h: "list_all is_hex ''fbb040''" by (simp add: is_hex_def hex_val_def)
  from hex_to_rgb_six_digits [OF h] h show ?thesis
    by (simp add: channel_def byte_of_def hex_val_def float_div_def)
qed

text \<open>
  Claim C10. \<^verbatim>\<open>hex_to_rgb\<close> strips every leading \<^verbatim>\<open>#\<close> and reads only the first six
  characters of what remains: whenever these are hexadecimal digits the conversion
  succeeds and is the conversion of those six digits, whatever follows them. In particular
  \<^verbatim>\<open>##ff0000\<close> and \<^verbatim>\<open>#ff0000zz\<close> both give (1, 0, 0).
\<close>

theorem hex_to_rgb_lenient:
  assumes "h = dropWhile (\<lambda>c. c = CHR ''#'') s" and "6 \<le> length h" and "list_all is_hex (take 6 h)"
  shows "hex_to_rgb s = Inr (channel (h ! 0) (h ! 1), channel (h ! 2) (h ! 3), channel (h ! 4) (h ! 5))
         \<and> hex_to_rgb s = hex_to_rgb (take 6 h)
         \<and> hex_to_rgb ''##ff0000'' = Inr (1, 0, 0)
         \<and> hex_to_rgb ''#ff0000zz'' = Inr (1, 0, 0)"
proof -
  have k: "takeWhile (\<lambda>c. c = CHR ''#'') s = replicate (length (takeWhile (\<lambda>c. c = CHR ''#'') s)) CHR ''#''"
    by (rule replicate_length_same [symmetric]) (auto dest: set_takeWhileD)
  have t6: "take 6 h = [h ! 0, h ! 1, h ! 2, h ! 3, h ! 4, h ! 5]"
    using assms(2) by (auto simp: list_eq_iff_nth_eq nth_Cons' numeral_eq_Suc less_Suc_eq)
  have s: "s = replicate (length (takeWhile (\<lambda>c. c = CHR ''#'') s)) CHR ''#''
               @ [h ! 0, h ! 1, h ! 2, h ! 3, h ! 4, h ! 5] @ drop 6 h"
    using takeWhile_dropWhile_id [of "\<lambda>c. c = CHR ''#''" s] k t6 assms(1) append_take_drop_id [of 6 h]
    by metis
  have hx: "\<forall>x \<in> set [h ! 0, h ! 1, h ! 2, h ! 3, h ! 4, h ! 5]. is_hex x"
    using assms(3) unfolding t6 by (simp add: list_all_iff)
  have 1: "hex_to_rgb s = Inr (channel (h ! 0) (h ! 1), channel (h ! 2) (h ! 3), channel (h ! 4) (h ! 5))"
    using hex_to_rgb_digits [OF hx, of "length (takeWhile (\<lambda>c. c = CHR ''#'') s)" "drop 6 h"] s by simp
  have 2: "hex_to_rgb (take 6 h) = Inr (channel (h ! 0) (h ! 1), channel (h ! 2) (h ! 3), channel (h ! 4) (h ! 5))"
    using hex_to_rgb_digits [OF hx, of 0 "[]"] t6 by simp
  have o: "\<forall>x \<in> set ''ff0000''. is_hex x"
    by (simp_all add: is_hex_def hex_val_def)
  have 3: "hex_to_rgb ''##ff0000'' = Inr (1, 0, 0)"
    using hex_to_rgb_digits [OF o, of 2 "[]"]
    by (simp add: channel_def byte_of_def hex_val_def numeral_eq_Suc float_div_def to_double_values)
  have 4: "hex_to_rgb ''#ff0000zz'' = Inr (1, 0, 0)"
    using hex_to_rgb_digits [OF o, of 1 "''zz''"]
    by (simp add: channel_def byte_of_def hex_val_def float_div_def to_double_values)
  show ?thesis using 1 2 3 4 by simp
qed

text \<open>The theorem at \<^verbatim>\<open>###0a141eff\<close>: three \<^verbatim>\<open>#\<close> and two trailing characters.\<close>

theorem hex_to_rgb_lenient_witness:
  "''0a141eff'' = dropWhile (\<lambda>c. c = CHR ''#'') ''###0a141eff'' \<and> 6 \<le> length ''0a141eff''
   \<and> list_all is_hex (take 6 ''0a141eff'')
   \<and> hex_to_rgb ''###0a141eff''
       = Inr (to_double (10 / 255), to_double (20 / 255), to_double (30 / 255))"
proof -
  have 1: "''0a141eff'' = dropWhile (\<lambda>c. c = CHR ''#'') ''###0a141eff''" by simp
  have 2: "6 \<le> length ''0a141eff''" by simp
  have 3: "list_all is_hex (take 6 ''0a141eff'')" by (simp add: is_hex_def hex_val_def)
  from hex_to_rgb_lenient [OF 1 2 3] 1 2 3 show ?thesis
    by (simp add: channel_def byte_of_def hex_val_def float_div_def)
qed

text \<open>
  Claim C6, as the code has it, for tokens whose characters are all code points below
  256. \<^verbatim>\<open>hex_to_rgb\<close> fails, with the \<^verbatim>\<open>ValueError\<close> of \<^verbatim>\<open>int\<close> and with no other error,
  exactly when one of the slices \<^verbatim>\<open>[0:2]\<close>, \<^verbatim>\<open>[2:4]\<close>, \<^verbatim>\<open>[4:6]\<close> of the string left after
  stripping every leading \<^verbatim>\<open>#\<close> is not a hexadecimal literal: one or two of the digits
  \<^verbatim>\<open>0-9\<close>, \<^verbatim>\<open>a-f\<close>, \<^verbatim>\<open>A-F\<close>, once the whitespace around them and one sign are removed.
  The token \<^verbatim>\<open>#xyz123\<close> raises this error.
\<close>

theorem hex_to_rgb_fails_iff:
  "(hex_to_rgb s = Inl InvalidLiteral)
     = (\<exists>i \<in> {0, 2, 4}. \<not> hex_literal (slice i (i + 2) (dropWhile (\<lambda>c. c = CHR ''#'') s)))
   \<and> ((\<exists>x. hex_to_rgb s = Inr x) \<or> hex_to_rgb s = Inl InvalidLiteral)
   \<and> hex_to_rgb ''#xyz123'' = Inl InvalidLiteral"
proof -
  define h where "h = dropWhile (\<lambda>c. c = CHR ''#'') s"
  have a: "(int16 (slice 0 2 h) = Inl InvalidLiteral) = (\<not> hex_literal (slice 0 2 h))"
          "(int16 (slice 2 4 h) = Inl InvalidLiteral) = (\<not> hex_literal (slice 2 4 h))"
          "(int16 (slice 4 6 h) = Inl InvalidLiteral) = (\<not> hex_literal (slice 4 6 h))"
    by (rule int16_short, simp add: slice_def)+
  have 1: "(hex_to_rgb s = Inl InvalidLiteral)
     = (int16 (slice 0 2 h) = Inl InvalidLiteral \<or> int16 (slice 2 4 h) = Inl InvalidLiteral
        \<or> int16 (slice 4 6 h) = Inl InvalidLiteral)"
    by (auto simp: hex_to_rgb_def h_def [symmetric] split: sum.splits dest: int16_error)
  have ex: "(\<exists>i \<in> {0, 2, 4}. \<not> hex_literal (slice i (i + 2) h))
     = (\<not> hex_literal (slice 0 2 h) \<or> \<not> hex_literal (slice 2 4 h) \<or> \<not> hex_literal (slice 4 6 h))"
    by (simp del: add_2_eq_Suc add_2_eq_Suc')
  have 2: "(\<exists>x. hex_to_rgb s = Inr x) \<or> hex_to_rgb s = Inl InvalidLiteral"
  proof (cases "hex_to_rgb s")
    case (Inl e)
    then have "e = InvalidLiteral"
      by (auto simp: hex_to_rgb_def Let_def split: sum.splits dest: int16_error)
    with Inl show ?thesis by simp
  next
    case (Inr x)
    then show ?thesis by blast
  qed
  have 3: "hex_to_rgb ''#xyz123'' = Inl InvalidLiteral"
    by (simp add: hex_to_rgb_def slice_def int16_def int_strip_def is_int_space_def strip_sign_def strip_0x_def hex_val_def)
  have 4: "(hex_to_rgb s = Inl InvalidLiteral) = (\<exists>i \<in> {0, 2, 4}. \<not> hex_literal (slice i (i + 2) h))"
    unfolding 1 a ex ..
  show ?thesis using 4 [unfolded h_def] 2 3 by (intro conjI)
qed

text \<open>
  The claim as written asks for an error unless exactly six hexadecimal digits remain
  after the \<^verbatim>\<open>#\<close>. The token \<^verbatim>\<open>#ff0000zz\<close> leaves eight characters, two of them no
  digits, and converts.
\<close>

theorem hex_to_rgb_trailing_counterexample:
  "hex_to_rgb ''#ff0000zz'' = Inr (1, 0, 0)
   \<and> \<not> (length ''ff0000zz'' = 6 \<and> list_all is_hex ''ff0000zz'')"
  by (simp add: hex_to_rgb_def slice_def int16_def int_strip_def is_int_space_def strip_sign_def
        strip_0x_def hex_val_def float_div_def to_double_values)

section \<open>The segment builder: properties\<close>

lemma hex_to_rgb_error: "hex_to_rgb c = Inl e \<Longrightarrow> e = InvalidLiteral"
  by (auto simp: hex_to_rgb_def Let_def split: sum.splits dest: int16_error)

lemma converts_rgb_of: "converts c \<Longrightarrow> hex_to_rgb c = Inr (rgb_of c)"
  by (simp add: converts_def rgb_of_def split: sum.splits)

lemma not_converts: "\<not> converts c \<Longrightarrow> hex_to_rgb c = Inl InvalidLiteral"
  by (auto simp: converts_def split: sum.splits dest: hex_to_rgb_error)

lemma segments_loop_ok:
  "\<forall>i \<in> set inds. converts (colors ! i) \<and> converts (colors ! (i + 1)) \<Longrightarrow>
   segments_loop colors n inds acc
     = Inr (acc @ map (\<lambda>i. segment n i (rgb_of (colors ! i)) (rgb_of (colors ! (i + 1)))) inds)"
  by (induction inds arbitrary: acc) (simp_all add: converts_rgb_of)

lemma segments_loop_fail:
  "\<not> (\<forall>i \<in> set inds. converts (colors ! i) \<and> converts (colors ! (i + 1))) \<Longrightarrow>
   segments_loop colors n inds acc = Inl InvalidLiteral"
proof (induction inds arbitrary: acc)
  case Nil
  then show ?case by simp
next
  case (Cons i inds)
  show ?case
  proof (cases "converts (colors ! i) \<and> converts (colors ! (i + 1))")
    case True
    with Cons.prems have "\<not> (\<forall>i \<in> set inds. converts (colors ! i) \<and> converts (colors ! (i + 1)))"
      by simp
    from Cons.IH [OF this] True show ?thesis by (simp add: converts_rgb_of)
  next
    case False
    then show ?thesis
      by (cases "converts (colors ! i)") (auto simp: converts_rgb_of not_converts)
  qed
qed

lemma adjacent_all:
  "(\<forall>i \<in> set [0 ..< length colors - 1]. converts (colors ! i) \<and> converts (colors ! (i + 1)))
   = (length colors < 2 \<or> (\<forall>c \<in> set colors. converts c))"
proof (cases "length colors < 2")
  case True
  then have "[0 ..< length colors - 1] = []" by simp
  with True show ?thesis by simp
next
  case False
  have "(\<forall>i < length colors - 1. converts (colors ! i) \<and> converts (colors ! (i + 1)))
      = (\<forall>j < length colors. converts (colors ! j))"
  proof (intro iffI allI impI)
    fix j assume a: "\<forall>i < length colors - 1. converts (colors ! i) \<and> converts (colors ! (i + 1))"
      and j: "j < length colors"
    show "converts (colors ! j)"
    proof (cases j)
      case 0
      with a False show ?thesis by (auto dest: spec [of _ 0])
    next
      case (Suc k)
      with a j show ?thesis by (auto dest: spec [of _ k])
    qed
  next
    fix i assume "\<forall>j < length colors. converts (colors ! j)" and "i < length colors - 1"
    then show "converts (colors ! i) \<and> converts (colors ! (i + 1))" by simp
  qed
  with False show ?thesis by (auto simp: all_set_conv_all_nth)
qed

lemma build_segments_eq:
  "build_segments colors =
     (if length colors < 2 \<or> (\<forall>c \<in> set colors. converts c)
      then Inr (map (\<lambda>i. segment (int (length colors) - 1) i (rgb_of (colors ! i)) (rgb_of (colors ! (i + 1))))
                    [0 ..< length colors - 1])
      else Inl InvalidLiteral)"
proof -
  have n: "nat (int (length colors) - 1) = length colors - 1" by simp
  show ?thesis
    unfolding build_segments_def Let_def n
    using segments_loop_ok [of "[0 ..< length colors - 1]" colors "int (length colors) - 1" "[]"]
          segments_loop_fail [of "[0 ..< length colors - 1]" colors "int (length colors) - 1" "[]"]
    unfolding adjacent_all by (simp split: if_splits)
qed


lemma segment_nth:
  "segment n i l r ! 0 = PyFloat (to_double (of_nat i / of_int n))"
  "segment n i l r ! 1 = PyFloat (to_double (to_double (to_double (of_nat i / of_int n) + to_double ((of_nat i + 1) / of_int n)) / 2))"
  "segment n i l r ! 2 = PyFloat (to_double ((of_nat i + 1) / of_int n))"
  "take 3 (segment n i l r) =
     [PyFloat (to_double (of_nat i / of_int n)),
      PyFloat (to_double (to_double (to_double (of_nat i / of_int n) + to_double ((of_nat i + 1) / of_int n)) / 2)),
      PyFloat (to_double ((of_nat i + 1) / of_int n))]"
  "hd (segment n i l r) = PyFloat (to_double (of_nat i / of_int n))"
  by (simp_all add: segment_def Let_def float_div_def float_add_def split: prod.splits)

text \<open>
  Claim C1, as the code has it. For a list of \<open>N \<ge> 2\<close> colours that all convert, the builder
  returns \<open>N - 1\<close> segments; segment \<open>i\<close> starts with the left endpoint, the double nearest
  to \<open>i / (N - 1)\<close>, then the midpoint, then the right endpoint, the double nearest to
  \<open>(i + 1) / (N - 1)\<close>. The midpoint is the mean of the two endpoints as float arithmetic
  gives it: their sum, rounded to a double, and halved. The first segment starts at
  exactly 0, the last one ends at exactly 1, and each segment ends where the next one
  starts.
\<close>

theorem segment_positions:
  assumes "2 \<le> length colors" and "\<forall>c \<in> set colors. converts c"
  shows "\<exists>segments. build_segments colors = Inr segments
          \<and> length segments = length colors - 1
          \<and> (\<forall>i < length colors - 1.
                take 3 (segments ! i) =
                  [PyFloat (to_double (of_nat i / of_nat (length colors - 1))),
                   PyFloat (to_double (to_double (to_double (of_nat i / of_nat (length colors - 1))
                                         + to_double ((of_nat i + 1) / of_nat (length colors - 1))) / 2)),
                   PyFloat (to_double ((of_nat i + 1) / of_nat (length colors - 1)))])
          \<and> hd (hd segments) = PyFloat 0
          \<and> last segments ! 2 = PyFloat 1
          \<and> (\<forall>i. i + 1 < length colors - 1 \<longrightarrow> segments ! i ! 2 = segments ! (i + 1) ! 0)"
proof -
  define n where "n = length colors - 1"
  define f where "f = (\<lambda>i. segment (int (length colors) - 1) i (rgb_of (colors ! i)) (rgb_of (colors ! (i + 1))))"
  define segments where "segments = map f [0 ..< n]"
  have n: "0 < n" "int (length colors) - 1 = int n" using assms(1) by (simp_all add: n_def)
  have b: "build_segments colors = Inr segments"
    using assms(2) by (simp add: build_segments_eq segments_def f_def n_def)
  have len: "length segments = n" by (simp add: segments_def)
  have nth: "\<And>i. i < n \<Longrightarrow> segments ! i = segment (int n) i (rgb_of (colors ! i)) (rgb_of (colors ! (i + 1)))"
    by (simp add: segments_def f_def n(2))
  have pos: "\<forall>i < n. take 3 (segments ! i) =
                  [PyFloat (to_double (of_nat i / of_nat n)),
                   PyFloat (to_double (to_double (to_double (of_nat i / of_nat n)
                                         + to_double ((of_nat i + 1) / of_nat n)) / 2)),
                   PyFloat (to_double ((of_nat i + 1) / of_nat n))]"
    by (simp add: nth segment_nth)
  have ne: "segments \<noteq> []" using len n(1) by auto
  have first: "hd (hd segments) = PyFloat 0"
    using nth [of 0] n(1) ne by (simp add: hd_conv_nth segment_nth to_double_values)
  have "last segments = segments ! (n - 1)" using ne len by (simp add: last_conv_nth)
  moreover have "(rat_of_nat (n - 1) + 1) / rat_of_nat n = 1" using n(1) by (simp add: of_nat_diff)
  ultimately have lst: "last segments ! 2 = PyFloat 1"
    using nth [of "n - 1"] n(1) by (simp add: segment_nth to_double_values)
  have cont: "\<forall>i. i + 1 < n \<longrightarrow> segments ! i ! 2 = segments ! (i + 1) ! 0"
    by (simp add: nth segment_nth add.commute)
  show ?thesis using b len pos first lst cont unfolding n_def by blast
qed

lemma converts_samples:
  "converts ''#ff0000''" "converts ''#00ff00''" "converts ''#0000ff''"
  "converts ''#000000''" "converts ''#ffffff''"
  by (simp_all add: converts_def hex_to_rgb_def slice_def int16_def int_strip_def is_int_space_def
        strip_sign_def strip_0x_def hex_val_def)

text \<open>The theorem at three colours: two segments, meeting at one half.\<close>

theorem segment_positions_witness:
  "2 \<le> length [''#ff0000'', ''#00ff00'', ''#0000ff'']
   \<and> converts ''#ff0000'' \<and> converts ''#00ff00'' \<and> converts ''#0000ff''
   \<and> (\<exists>segments. build_segments [''#ff0000'', ''#00ff00'', ''#0000ff''] = Inr segments
        \<and> length segments = 2
        \<and> take 3 (segments ! 0) = [PyFloat 0, PyFloat (1 / 4), PyFloat (1 / 2)]
        \<and> take 3 (segments ! 1) = [PyFloat (1 / 2), PyFloat (3 / 4), PyFloat 1])"
proof -
  have 1: "2 \<le> length [''#ff0000'', ''#00ff00'', ''#0000ff'']" by simp
  have 2: "\<forall>c \<in> set [''#ff0000'', ''#00ff00'', ''#0000ff'']. converts c"
    by (simp add: converts_samples)
  from segment_positions [OF 1 2] obtain segments where
    s: "build_segments [''#ff0000'', ''#00ff00'', ''#0000ff''] = Inr segments"
       "length segments = 2"
       "\<forall>i < 2. take 3 (segments ! i) =
          [PyFloat (to_double (of_nat i / 2)),
           PyFloat (to_double (to_double (to_double (of_nat i / 2)
                                         + to_double ((of_nat i + 1) / 2)) / 2)),
           PyFloat (to_double ((of_nat i + 1) / 2))]"
    by auto
  from s(3) have "take 3 (segments ! 0) = [PyFloat 0, PyFloat (1 / 4), PyFloat (1 / 2)]"
    and "take 3 (segments ! 1) = [PyFloat (1 / 2), PyFloat (3 / 4), PyFloat 1]"
    by (auto simp: to_double_values dest: spec [of _ 0] spec [of _ 1])
  with s(1,2) 1 converts_samples(1,2,3) show ?thesis by blast
qed

lemma to_double_thirds:
  "to_double (2 / 3) = 6004799503160661 / 9007199254740992"
  "to_double (6004799503160661 / 9007199254740992 + 1) = 3752999689475413 / 2251799813685248"
  "to_double (3752999689475413 / 2251799813685248 / 2) = 3752999689475413 / 4503599627370496"
  by code_simp+

text \<open>
  The claim as written makes the midpoint the arithmetic mean of the two endpoints. With
  four colours the third segment runs from the double nearest to 2/3 to 1. The sum of the
  two has 54 significant bits and is rounded before it is halved, so the midpoint the
  builder stores is not their mean.
\<close>

theorem segment_positions_counterexample:
  "take 3 (projr (build_segments [''#000000'', ''#000000'', ''#000000'', ''#000000'']) ! 2)
     = [PyFloat (6004799503160661 / 9007199254740992),
        PyFloat (3752999689475413 / 4503599627370496),
        PyFloat 1]
   \<and> (3752999689475413 / 4503599627370496 :: rat)
       \<noteq> (6004799503160661 / 9007199254740992 + 1) / 2"
proof -
  have c: "length [''#000000'', ''#000000'', ''#000000'', ''#000000''] < 2
           \<or> (\<forall>c \<in> set [''#000000'', ''#000000'', ''#000000'', ''#000000'']. converts c)"
    by (simp add: converts_samples)
  have p: "projr (build_segments [''#000000'', ''#000000'', ''#000000'', ''#000000'']) ! 2
        = segment 3 2 (rgb_of ''#000000'') (rgb_of ''#000000'')"
    unfolding build_segments_eq if_P [OF c] by (simp add: numeral_2_eq_2)
  have 1: "take 3 (projr (build_segments [''#000000'', ''#000000'', ''#000000'', ''#000000'']) ! 2)
     = [PyFloat (6004799503160661 / 9007199254740992),
        PyFloat (3752999689475413 / 4503599627370496),
        PyFloat 1]"
  proof -
    have a: "(of_nat 2 :: rat) / of_int 3 = 2 / 3" by simp
    have b: "((of_nat 2 :: rat) + 1) / of_int 3 = 1" by simp
    show ?thesis
      by (simp only: p segment_nth a b to_double_values to_double_thirds)
  qed
  have 2: "(3752999689475413 / 4503599627370496 :: rat)
       \<noteq> (6004799503160661 / 9007199254740992 + 1) / 2"
    by simp
  from 1 2 show ?thesis by (intro conjI)
qed

lemma push_char_Cons [simp]: "push_char x (y # ys) = (x # y) # ys"
  by (simp add: push_char_def)

lemma split_on_nonempty: "split_on c s \<noteq> []"
  by (induction s) (auto simp: push_char_def)

lemma split_on_free: "c \<notin> set s \<Longrightarrow> split_on c s = [s]"
  by (induction s) auto

lemma split_on_append: "split_on c (a @ c # b) = split_on c a @ split_on c b"
proof (induction a)
  case Nil
  then show ?case by simp
next
  case (Cons x a)
  obtain y ys where y: "split_on c a = y # ys"
    using split_on_nonempty [of c a] by (cases "split_on c a") auto
  with Cons show ?case by simp
qed

lemma join_Cons: "xs \<noteq> [] \<Longrightarrow> join sep (x # xs) = x @ sep @ join sep xs"
  by (cases xs) auto

lemma split_on_join:
  "xs \<noteq> [] \<Longrightarrow> split_on c (join [c] xs) = concat (map (split_on c) xs)"
proof (induction xs)
  case Nil
  then show ?case by simp
next
  case (Cons x xs)
  show ?case
  proof (cases "xs = []")
    case True
    then show ?thesis by simp
  next
    case False
    with Cons.IH show ?thesis by (simp add: join_Cons split_on_append)
  qed
qed

lemma concat_singletons: "\<forall>x \<in> set xs. f x = [x] \<Longrightarrow> concat (map f xs) = xs"
  by (induction xs) auto

lemma split_on_join_free:
  "xs \<noteq> [] \<Longrightarrow> \<forall>x \<in> set xs. c \<notin> set x \<Longrightarrow> split_on c (join [c] xs) = xs"
  by (simp add: split_on_join concat_singletons split_on_free)

lemma set_join: "set (join sep xs) \<subseteq> set sep \<union> \<Union> (set ` set xs)"
  by (induction sep xs rule: join.induct) auto

lemma digit_char_plain: "d < 10 \<Longrightarrow> digit_char d \<noteq> CHR 0x0A \<and> digit_char d \<noteq> CHR '' ''"
proof -
  assume d: "d < 10"
  have "of_char (digit_char d) = 48 + d"
    using d by (simp add: digit_char_def)
  then show ?thesis using d by auto
qed

lemma str_nat_plain: "CHR 0x0A \<notin> set (str_nat n) \<and> CHR '' '' \<notin> set (str_nat n)"
proof (induction n rule: str_nat.induct)
  case (1 n)
  show ?case
  proof (cases "n < 10")
    case True
    then show ?thesis using digit_char_plain [of n] by (subst (1 2) str_nat.simps) auto
  next
    case False
    then show ?thesis using 1 digit_char_plain [of "n mod 10"]
      by (subst (1 2) str_nat.simps) auto
  qed
qed

lemma str_int_plain: "CHR 0x0A \<notin> set (str_int i) \<and> CHR '' '' \<notin> set (str_int i)"
  using str_nat_plain by (simp add: str_int_def)

lemma digit_char_0: "digit_char 0 = CHR ''0''"
  by code_simp

lemma str_int_count: "str_int (int n) = str_nat n" "str_int 0 = ''0''"
  by (simp_all add: str_int_def str_nat.simps digit_char_0)


lemma str_num_plain:
  "\<forall>x. c \<notin> set (str_float x) \<Longrightarrow> c = CHR 0x0A \<or> c = CHR '' '' \<Longrightarrow> c \<notin> set (str_num str_float v)"
  using str_int_plain by (cases v) auto

lemma segment_line_no_newline:
  assumes "\<forall>x. CHR 0x0A \<notin> set (str_float x)"
  shows "CHR 0x0A \<notin> set (segment_line str_float seg)"
proof
  assume "CHR 0x0A \<in> set (segment_line str_float seg)"
  then have "CHR 0x0A \<in> set '' '' \<union> \<Union> (set ` set (map (str_num str_float) seg))"
    using set_join [of "'' ''" "map (str_num str_float) seg"] by (auto simp: segment_line_def)
  then obtain v where "CHR 0x0A \<in> set (str_num str_float v)" by auto
  with str_num_plain [OF assms, of v] show False by simp
qed

lemma split_content:
  assumes "CHR 0x0A \<notin> set cnt" and "\<forall>l \<in> set ls. CHR 0x0A \<notin> set l"
  shows "split_on CHR 0x0A (join [CHR 0x0A] ([''GIMP Gradient'', ''Name: '' @ name, cnt] @ ls))
         = ''GIMP Gradient'' # split_on CHR 0x0A (''Name: '' @ name) @ cnt # ls"
proof -
  have g: "split_on CHR 0x0A ''GIMP Gradient'' = [''GIMP Gradient'']" by (simp add: split_on_free)
  have c: "split_on CHR 0x0A cnt = [cnt]" using assms(1) by (simp add: split_on_free)
  have l: "concat (map (split_on CHR 0x0A) ls) = ls"
    using assms(2) by (simp add: concat_singletons split_on_free)
  have "split_on CHR 0x0A (join [CHR 0x0A] ([''GIMP Gradient'', ''Name: '' @ name, cnt] @ ls))
        = concat (map (split_on CHR 0x0A) ([''GIMP Gradient'', ''Name: '' @ name, cnt] @ ls))"
    by (rule split_on_join) simp
  also have "\<dots> = ''GIMP Gradient'' # split_on CHR 0x0A (''Name: '' @ name) @ cnt # ls"
    using g c l by simp
  finally show ?thesis .
qed

lemma create_ok:
  assumes "length colors < 2 \<or> (\<forall>c \<in> set colors. converts c)"
  shows "create_gimp_gradient str_float name colors =
           Inr (join [CHR 0x0A]
                  ([''GIMP Gradient'', ''Name: '' @ name, str_int (int (length colors) - 1)]
                   @ map (segment_line str_float)
                       (map (\<lambda>i. segment (int (length colors) - 1) i (rgb_of (colors ! i)) (rgb_of (colors ! (i + 1))))
                            [0 ..< length colors - 1])))"
  using assms by (simp add: create_gimp_gradient_def build_segments_eq)

text \<open>
  Claim C2. For \<open>N \<ge> 2\<close> colours that all convert, the output is produced and declares
  \<open>N - 1\<close> segments: cut at the newlines, it is the two header lines, then the line with
  the decimal count \<open>N - 1\<close>, then exactly \<open>N - 1\<close> segment lines and nothing more.
  (\<open>str\<close> on a float prints no newline.)
\<close>

theorem segment_count:
  assumes "2 \<le> length colors" and "\<forall>c \<in> set colors. converts c"
    and "\<forall>x. CHR 0x0A \<notin> set (str_float x)"
  shows "\<exists>out segments.
           create_gimp_gradient str_float name colors = Inr out
         \<and> build_segments colors = Inr segments
         \<and> length segments = length colors - 1
         \<and> split_on CHR 0x0A out =
             ''GIMP Gradient'' # split_on CHR 0x0A (''Name: '' @ name)
             @ str_nat (length colors - 1) # map (segment_line str_float) segments"
proof -
  define segments where "segments =
    map (\<lambda>i. segment (int (length colors) - 1) i (rgb_of (colors ! i)) (rgb_of (colors ! (i + 1))))
        [0 ..< length colors - 1]"
  define out where "out = join [CHR 0x0A]
      ([''GIMP Gradient'', ''Name: '' @ name, str_int (int (length colors) - 1)]
       @ map (segment_line str_float) segments)"
  have c: "create_gimp_gradient str_float name colors = Inr out"
    using assms(2) by (simp add: create_ok out_def segments_def)
  have b: "build_segments colors = Inr segments"
    using assms(2) by (simp add: build_segments_eq segments_def)
  have len: "length segments = length colors - 1" by (simp add: segments_def)
  have "int (length colors) - 1 = int (length colors - 1)" using assms(1) by simp
  then have cnt: "str_int (int (length colors) - 1) = str_nat (length colors - 1)"
    by (simp only: str_int_count)
  have "split_on CHR 0x0A out =
          ''GIMP Gradient'' # split_on CHR 0x0A (''Name: '' @ name)
          @ str_int (int (length colors) - 1) # map (segment_line str_float) segments"
    unfolding out_def
    by (rule split_content) (simp_all add: str_int_plain segment_line_no_newline [OF assms(3)])
  with c b len cnt show ?thesis by auto
qed

lemma repr_sample_plain: "CHR 0x0A \<notin> set (repr_sample x) \<and> CHR '' '' \<notin> set (repr_sample x)"
  by (simp add: repr_sample_def)

lemma digit_char_small: "digit_char (Suc 0) = CHR ''1''" "digit_char 2 = CHR ''2''"
  by code_simp+

lemma str_nat_digit: "n < 10 \<Longrightarrow> str_nat n = [digit_char n]"
  by (subst str_nat.simps) simp

lemma str_nat_small:
  "str_nat 0 = ''0''" "str_nat 1 = ''1''" "str_nat 2 = ''2''" "str_nat (Suc 0) = ''1''"
  by (simp_all add: str_nat_digit digit_char_0 digit_char_small)

text \<open>The theorem at three colours and the default name.\<close>

theorem segment_count_witness:
  "2 \<le> length [''#ff0000'', ''#00ff00'', ''#0000ff'']
   \<and> converts ''#ff0000'' \<and> converts ''#00ff00'' \<and> converts ''#0000ff''
   \<and> (\<forall>x. CHR 0x0A \<notin> set (repr_sample x))
   \<and> (\<exists>out segments.
         create_gimp_gradient repr_sample ''Custom Gradient'' [''#ff0000'', ''#00ff00'', ''#0000ff'']
           = Inr out
       \<and> length segments = 2
       \<and> split_on CHR 0x0A out =
           [''GIMP Gradient'', ''Name: Custom Gradient'', ''2''] @ map (segment_line repr_sample) segments)"
proof -
  have 1: "2 \<le> length [''#ff0000'', ''#00ff00'', ''#0000ff'']" by simp
  have 2: "\<forall>c \<in> set [''#ff0000'', ''#00ff00'', ''#0000ff'']. converts c"
    by (simp add: converts_samples)
  have 3: "\<forall>x. CHR 0x0A \<notin> set (repr_sample x)" by (simp add: repr_sample_plain)
  have 4: "length [''#ff0000'', ''#00ff00'', ''#0000ff''] - 1 = 2" by simp
  have 5: "split_on CHR 0x0A (''Name: '' @ ''Custom Gradient'') = [''Name: Custom Gradient'']"
    by simp
  from segment_count [OF 1 2 3, of "''Custom Gradient''"] obtain out segments where
    o: "create_gimp_gradient repr_sample ''Custom Gradient'' [''#ff0000'', ''#00ff00'', ''#0000ff''] = Inr out"
       "length segments = length [''#ff0000'', ''#00ff00'', ''#0000ff''] - 1"
       "split_on CHR 0x0A out =
             ''GIMP Gradient'' # split_on CHR 0x0A (''Name: '' @ ''Custom Gradient'')
             @ str_nat (length [''#ff0000'', ''#00ff00'', ''#0000ff''] - 1) # map (segment_line repr_sample) segments"
    by (elim exE conjE) (rule that; assumption)
  have a: "length segments = 2" using o(2) 4 by simp
  have b: "split_on CHR 0x0A out =
           [''GIMP Gradient'', ''Name: Custom Gradient'', ''2''] @ map (segment_line repr_sample) segments"
    unfolding o(3) 4 5 str_nat_small by simp
  have "\<exists>out segments.
         create_gimp_gradient repr_sample ''Custom Gradient'' [''#ff0000'', ''#00ff00'', ''#0000ff'']
           = Inr out
       \<and> length segments = 2
       \<and> split_on CHR 0x0A out =
           [''GIMP Gradient'', ''Name: Custom Gradient'', ''2''] @ map (segment_line repr_sample) segments"
    using o(1) a b by (intro exI conjI)
  with 1 converts_samples(1,2,3) 3 show ?thesis by (intro conjI)
qed

lemma split_segment_line:
  assumes "\<forall>x. CHR '' '' \<notin> set (str_float x)" and "seg \<noteq> []"
  shows "split_on CHR '' '' (segment_line str_float seg) = map (str_num str_float) seg"
proof -
  have "\<forall>t \<in> set (map (str_num str_float) seg). CHR '' '' \<notin> set t"
    using str_num_plain [OF assms(1)] by simp
  with assms(2) show ?thesis
    unfolding segment_line_def by (intro split_on_join_free) simp_all
qed

lemma tokens_segment:
  "map (str_num str_float) (segment n i (lr, lg, lb) (rr, rg, rb)) =
     [str_float (to_double (of_nat i / of_int n)),
      str_float (to_double (to_double (to_double (of_nat i / of_int n)
          + to_double ((of_nat i + 1) / of_int n)) / 2)),
      str_float (to_double ((of_nat i + 1) / of_int n)),
      str_float lr, str_float lg, str_float lb, str_float 1,
      str_float rr, str_float rg, str_float rb, str_float 1,
      ''0'', ''0'', ''0'', ''0'']"
  by (simp add: segment_def Let_def str_int_count(2) float_div_def float_add_def)

lemma segment_nonempty: "segment n i l r \<noteq> []"
  by (simp add: segment_def Let_def split: prod.splits)

text \<open>
  Claim C4, as the code has it. For a name without a newline and \<open>N \<ge> 2\<close> colours that all
  convert, the output is produced and, cut at the newlines, is the three header lines
  \<^verbatim>\<open>GIMP Gradient\<close>, \<^verbatim>\<open>Name: <name>\<close> and the decimal count, followed by one line per
  segment. Cut at the spaces, the line of segment \<open>i\<close> is exactly fifteen tokens: left,
  mid, right, the left colour with alpha 1.0, the right colour with alpha 1.0, and four
  selectors \<^verbatim>\<open>0\<close>. (\<open>str\<close> on a float prints neither a space nor a newline.)
\<close>

theorem gradient_layout:
  assumes "2 \<le> length colors" and "\<forall>c \<in> set colors. converts c"
    and "CHR 0x0A \<notin> set name"
    and "\<forall>x. CHR 0x0A \<notin> set (str_float x) \<and> CHR '' '' \<notin> set (str_float x)"
  shows "\<exists>out lines.
           create_gimp_gradient str_float name colors = Inr out
         \<and> split_on CHR 0x0A out =
             [''GIMP Gradient'', ''Name: '' @ name, str_nat (length colors - 1)] @ lines
         \<and> length lines = length colors - 1
         \<and> (\<forall>i < length colors - 1.
               split_on CHR '' '' (lines ! i) =
                 (case rgb_of (colors ! i) of (lr, lg, lb) \<Rightarrow>
                  case rgb_of (colors ! (i + 1)) of (rr, rg, rb) \<Rightarrow>
                    [str_float (to_double (of_nat i / of_nat (length colors - 1))),
                     str_float (to_double (to_double (to_double (of_nat i / of_nat (length colors - 1))
                         + to_double ((of_nat i + 1) / of_nat (length colors - 1))) / 2)),
                     str_float (to_double ((of_nat i + 1) / of_nat (length colors - 1))),
                     str_float lr, str_float lg, str_float lb, str_float 1,
                     str_float rr, str_float rg, str_float rb, str_float 1,
                     ''0'', ''0'', ''0'', ''0'']))"
proof -
  define n where "n = length colors - 1"
  define seg where "seg = (\<lambda>i. segment (int n) i (rgb_of (colors ! i)) (rgb_of (colors ! (i + 1))))"
  define lines where "lines = map (segment_line str_float) (map seg [0 ..< n])"
  define out where "out = join [CHR 0x0A]
      ([''GIMP Gradient'', ''Name: '' @ name, str_int (int n)] @ lines)"
  have n: "int (length colors) - 1 = int n" using assms(1) by (simp add: n_def)
  have nl: "\<forall>x. CHR 0x0A \<notin> set (str_float x)" and sp: "\<forall>x. CHR '' '' \<notin> set (str_float x)"
    using assms(4) by simp_all
  have "length colors < 2 \<or> (\<forall>c \<in> set colors. converts c)" using assms(2) by simp
  from create_ok [OF this, of str_float name]
  have c: "create_gimp_gradient str_float name colors = Inr out"
    by (simp only: out_def lines_def seg_def n n_def [symmetric])
  have nm: "split_on CHR 0x0A (''Name: '' @ name) = [''Name: '' @ name]"
    using assms(3) by (intro split_on_free) simp
  have "split_on CHR 0x0A out =
          ''GIMP Gradient'' # split_on CHR 0x0A (''Name: '' @ name) @ str_int (int n) # lines"
    unfolding out_def
    by (rule split_content) (simp_all add: str_int_plain lines_def segment_line_no_newline [OF nl])
  then have "split_on CHR 0x0A out =
          ''GIMP Gradient'' # [''Name: '' @ name] @ str_int (int n) # lines"
    by (simp only: nm)
  then have s: "split_on CHR 0x0A out = [''GIMP Gradient'', ''Name: '' @ name, str_nat n] @ lines"
    by (simp only: str_int_count(1) append_Cons append_Nil)
  have len: "length lines = n" by (simp add: lines_def)
  have tok: "\<forall>i < n. split_on CHR '' '' (lines ! i) =
                 (case rgb_of (colors ! i) of (lr, lg, lb) \<Rightarrow>
                  case rgb_of (colors ! (i + 1)) of (rr, rg, rb) \<Rightarrow>
                    [str_float (to_double (of_nat i / of_nat n)),
                     str_float (to_double (to_double (to_double (of_nat i / of_nat n)
                         + to_double ((of_nat i + 1) / of_nat n)) / 2)),
                     str_float (to_double ((of_nat i + 1) / of_nat n)),
                     str_float lr, str_float lg, str_float lb, str_float 1,
                     str_float rr, str_float rg, str_float rb, str_float 1,
                     ''0'', ''0'', ''0'', ''0''])"
  proof (intro allI impI)
    fix i assume i: "i < n"
    obtain lr lg lb where l: "rgb_of (colors ! i) = (lr, lg, lb)" by (cases "rgb_of (colors ! i)")
    obtain rr rg rb where r: "rgb_of (colors ! (i + 1)) = (rr, rg, rb)"
      by (cases "rgb_of (colors ! (i + 1))")
    have "lines ! i = segment_line str_float (segment (int n) i (lr, lg, lb) (rr, rg, rb))"
      using i l r by (simp add: lines_def seg_def)
    then have "split_on CHR '' '' (lines ! i)
               = map (str_num str_float) (segment (int n) i (lr, lg, lb) (rr, rg, rb))"
      by (simp add: split_segment_line [OF sp segment_nonempty])
    then show "split_on CHR '' '' (lines ! i) =
                 (case rgb_of (colors ! i) of (lr, lg, lb) \<Rightarrow>
                  case rgb_of (colors ! (i + 1)) of (rr, rg, rb) \<Rightarrow>
                    [str_float (to_double (of_nat i / of_nat n)),
                     str_float (to_double (to_double (to_double (of_nat i / of_nat n)
                         + to_double ((of_nat i + 1) / of_nat n)) / 2)),
                     str_float (to_double ((of_nat i + 1) / of_nat n)),
                     str_float lr, str_float lg, str_float lb, str_float 1,
                     str_float rr, str_float rg, str_float rb, str_float 1,
                     ''0'', ''0'', ''0'', ''0''])"
      unfolding l r by (simp only: tokens_segment prod.case of_int_of_nat_eq)
  qed
  show ?thesis
    using c s len tok unfolding n_def by (intro exI [of _ out] exI [of _ lines] conjI)
qed


lemma rgb_of_samples:
  "rgb_of ''#000000'' = (0, 0, 0)" "rgb_of ''#ffffff'' = (1, 1, 1)"
  by (simp_all add: rgb_of_def hex_to_rgb_def slice_def int16_def int_strip_def is_int_space_def
        strip_sign_def strip_0x_def hex_val_def float_div_def to_double_values)

lemma black_white_line:
  "segment_line repr_sample (segment 1 0 (0, 0, 0) (1, 1, 1))
   = ''0.0 0.5 1.0 0.0 0.0 0.0 1.0 1.0 1.0 1.0 1.0 0 0 0 0''"
  by (simp add: segment_line_def segment_def Let_def repr_sample_def str_int_count(2)
        float_div_def float_add_def to_double_values)

lemma black_white_output:
  "create_gimp_gradient repr_sample name [''#000000'', ''#ffffff''] =
     Inr (''GIMP Gradient'' @ [CHR 0x0A] @ ''Name: '' @ name @ [CHR 0x0A] @ ''1'' @ [CHR 0x0A]
          @ ''0.0 0.5 1.0 0.0 0.0 0.0 1.0 1.0 1.0 1.0 1.0 0 0 0 0'')"
proof -
  have c: "length [''#000000'', ''#ffffff''] < 2 \<or> (\<forall>c \<in> set [''#000000'', ''#ffffff'']. converts c)"
    by (simp add: converts_samples)
  have i: "str_int (int (length [''#000000'', ''#ffffff'']) - 1) = ''1''"
    using str_int_count(1) [of 1] by (simp add: str_nat_small)
  show ?thesis
    unfolding create_ok [OF c] i
    by (simp add: rgb_of_samples black_white_line)
qed

text \<open>The theorem at the gradient from black to white under the default name.\<close>

theorem gradient_layout_witness:
  "2 \<le> length [''#000000'', ''#ffffff'']
   \<and> converts ''#000000'' \<and> converts ''#ffffff''
   \<and> CHR 0x0A \<notin> set ''Custom Gradient''
   \<and> (\<forall>x. CHR 0x0A \<notin> set (repr_sample x) \<and> CHR '' '' \<notin> set (repr_sample x))
   \<and> (\<exists>out lines.
         create_gimp_gradient repr_sample ''Custom Gradient'' [''#000000'', ''#ffffff''] = Inr out
       \<and> split_on CHR 0x0A out = [''GIMP Gradient'', ''Name: Custom Gradient'', ''1''] @ lines
       \<and> length lines = 1
       \<and> split_on CHR '' '' (lines ! 0) =
           [''0.0'', ''0.5'', ''1.0'', ''0.0'', ''0.0'', ''0.0'', ''1.0'',
            ''1.0'', ''1.0'', ''1.0'', ''1.0'', ''0'', ''0'', ''0'', ''0''])"
proof -
  have 1: "2 \<le> length [''#000000'', ''#ffffff'']" by simp
  have 2: "\<forall>c \<in> set [''#000000'', ''#ffffff'']. converts c" by (simp add: converts_samples)
  have 3: "CHR 0x0A \<notin> set ''Custom Gradient''" by simp
  have 4: "\<forall>x. CHR 0x0A \<notin> set (repr_sample x) \<and> CHR '' '' \<notin> set (repr_sample x)"
    by (simp add: repr_sample_plain)
  have 5: "length [''#000000'', ''#ffffff''] - 1 = 1" by simp
  from gradient_layout [OF 1 2 3 4] obtain out lines where
    o: "create_gimp_gradient repr_sample ''Custom Gradient'' [''#000000'', ''#ffffff''] = Inr out"
       "split_on CHR 0x0A out =
          [''GIMP Gradient'', ''Name: '' @ ''Custom Gradient'',
           str_nat (length [''#000000'', ''#ffffff''] - 1)] @ lines"
       "length lines = length [''#000000'', ''#ffffff''] - 1"
       "\<forall>i < length [''#000000'', ''#ffffff''] - 1.
               split_on CHR '' '' (lines ! i) =
                 (case rgb_of ([''#000000'', ''#ffffff''] ! i) of (lr, lg, lb) \<Rightarrow>
                  case rgb_of ([''#000000'', ''#ffffff''] ! (i + 1)) of (rr, rg, rb) \<Rightarrow>
                    [repr_sample (to_double (of_nat i / of_nat (length [''#000000'', ''#ffffff''] - 1))),
                     repr_sample (to_double (to_double (to_double (of_nat i / of_nat (length [''#000000'', ''#ffffff''] - 1))
                         + to_double ((of_nat i + 1) / of_nat (length [''#000000'', ''#ffffff''] - 1))) / 2)),
                     repr_sample (to_double ((of_nat i + 1) / of_nat (length [''#000000'', ''#ffffff''] - 1))),
                     repr_sample lr, repr_sample lg, repr_sample lb, repr_sample 1,
                     repr_sample rr, repr_sample rg, repr_sample rb, repr_sample 1,
                     ''0'', ''0'', ''0'', ''0''])"
    by (elim exE conjE) (rule that; assumption)
  have a: "split_on CHR 0x0A out = [''GIMP Gradient'', ''Name: Custom Gradient'', ''1''] @ lines"
    unfolding o(2) 5 by (simp add: str_nat_small)
  have b: "length lines = 1" using o(3) by simp
  have "split_on CHR '' '' (lines ! 0) =
                 (case rgb_of ([''#000000'', ''#ffffff''] ! 0) of (lr, lg, lb) \<Rightarrow>
                  case rgb_of ([''#000000'', ''#ffffff''] ! (0 + 1)) of (rr, rg, rb) \<Rightarrow>
                    [repr_sample (to_double (of_nat 0 / of_nat (length [''#000000'', ''#ffffff''] - 1))),
                     repr_sample (to_double (to_double (to_double (of_nat 0 / of_nat (length [''#000000'', ''#ffffff''] - 1))
                         + to_double ((of_nat 0 + 1) / of_nat (length [''#000000'', ''#ffffff''] - 1))) / 2)),
                     repr_sample (to_double ((of_nat 0 + 1) / of_nat (length [''#000000'', ''#ffffff''] - 1))),
                     repr_sample lr, repr_sample lg, repr_sample lb, repr_sample 1,
                     repr_sample rr, repr_sample rg, repr_sample rb, repr_sample 1,
                     ''0'', ''0'', ''0'', ''0''])"
    using o(4) 5 by (elim allE [of _ 0]) simp
  then have c: "split_on CHR '' '' (lines ! 0) =
           [''0.0'', ''0.5'', ''1.0'', ''0.0'', ''0.0'', ''0.0'', ''1.0'',
            ''1.0'', ''1.0'', ''1.0'', ''1.0'', ''0'', ''0'', ''0'', ''0'']"
    by (simp add: rgb_of_samples repr_sample_def to_double_values)
  have "\<exists>out lines.
         create_gimp_gradient repr_sample ''Custom Gradient'' [''#000000'', ''#ffffff''] = Inr out
       \<and> split_on CHR 0x0A out = [''GIMP Gradient'', ''Name: Custom Gradient'', ''1''] @ lines
       \<and> length lines = 1
       \<and> split_on CHR '' '' (lines ! 0) =
           [''0.0'', ''0.5'', ''1.0'', ''0.0'', ''0.0'', ''0.0'', ''1.0'',
            ''1.0'', ''1.0'', ''1.0'', ''1.0'', ''0'', ''0'', ''0'', ''0'']"
    using o(1) a b c by (intro exI conjI)
  with 1 converts_samples(4,5) 3 4 show ?thesis by (intro conjI)
qed

text \<open>
  The claim as written is for every name. The name is copied into the output as it is, so
  a name with a newline takes two lines: for the name \<^verbatim>\<open>a\nb\<close> the third line of the
  output is \<^verbatim>\<open>b\<close>, not the segment count.
\<close>

theorem gradient_header_counterexample:
  "create_gimp_gradient repr_sample ''a\<newline>b'' [''#000000'', ''#ffffff'']
     = Inr ''GIMP Gradient\<newline>Name: a\<newline>b\<newline>1\<newline>0.0 0.5 1.0 0.0 0.0 0.0 1.0 1.0 1.0 1.0 1.0 0 0 0 0''
   \<and> take 3 (split_on CHR 0x0A
        ''GIMP Gradient\<newline>Name: a\<newline>b\<newline>1\<newline>0.0 0.5 1.0 0.0 0.0 0.0 1.0 1.0 1.0 1.0 1.0 0 0 0 0'')
     = [''GIMP Gradient'', ''Name: a'', ''b'']
   \<and> ''b'' \<noteq> str_int (int (length [''#000000'', ''#ffffff'']) - 1)"
proof -
  have i: "str_int (int (length [''#000000'', ''#ffffff'']) - 1) = ''1''"
    using str_int_count(1) [of 1] by (simp add: str_nat_small)
  show ?thesis unfolding i black_white_output by simp
qed

section \<open>The parser: properties\<close>

lemma first_some_None: "(first_some xs = None) = (\<forall>x \<in> set xs. x = None)"
  by (induction xs rule: first_some.induct) auto

lemma first_some_Some: "first_some xs = Some y \<Longrightarrow> Some y \<in> set xs"
  by (induction xs rule: first_some.induct) auto

lemma match_Rep_None:
  "(match_items (Rep mn cls cap # its) s = None)
   = (\<forall>k. mn \<le> k \<and> k \<le> length (takeWhile cls s) \<longrightarrow> match_items its (drop k s) = None)"
  by (auto simp: first_some_None)

lemma first_some_map: "first_some (map f ks) = Some y \<Longrightarrow> \<exists>k \<in> set ks. f k = Some y"
proof (induction ks)
  case Nil
  then show ?case by simp
next
  case (Cons a ks)
  then show ?case by (cases "f a") auto
qed

lemma match_Rep_Some:
  assumes "match_items (Rep mn cls cap # its) s = Some gs"
  shows "\<exists>k g. mn \<le> k \<and> k \<le> length (takeWhile cls s) \<and> match_items its (drop k s) = Some g
           \<and> gs = (if cap then take k s # g else g)"
proof -
  from assms obtain k where m: "k \<in> set (rev [mn ..< Suc (length (takeWhile cls s))])"
    and e: "map_option (\<lambda>gs. if cap then take k s # gs else gs) (match_items its (drop k s)) = Some gs"
    unfolding match_items.simps by (blast dest: first_some_map)
  from m have k: "mn \<le> k" "k \<le> length (takeWhile cls s)" by auto
  from e obtain g where "match_items its (drop k s) = Some g"
    and "gs = (if cap then take k s # g else g)"
    by (cases "match_items its (drop k s)") auto
  with k show ?thesis by blast
qed

lemma match_Lit:
  "match_items (Lit l # its) s = (if prefix l s then match_items its (drop (length l) s) else None)"
  by simp

lemma take_in_class: "k \<le> length (takeWhile P s) \<Longrightarrow> \<forall>x \<in> set (take k s). P x"
proof -
  assume k: "k \<le> length (takeWhile P s)"
  have "take k s = take k (takeWhile P s @ dropWhile P s)" by simp
  also have "\<dots> = take k (takeWhile P s)" using k by (simp del: takeWhile_dropWhile_id)
  finally have "set (take k s) \<subseteq> set (takeWhile P s)" by (simp add: set_take_subset)
  then show ?thesis by (auto dest: set_takeWhileD)
qed

lemma class_prefix_le: "\<forall>x \<in> set a. P x \<Longrightarrow> length a \<le> length (takeWhile P (a @ b))"
  by (simp add: takeWhile_append2)


lemma match_Lit_Some:
  "match_items (Lit l # its) s = Some gs \<Longrightarrow>
   prefix l s \<and> match_items its (drop (length l) s) = Some gs"
  by (simp split: if_splits)

lemma prefix_split: "prefix l s \<Longrightarrow> s = l @ drop (length l) s"
  by (auto simp: prefix_def)

lemma match_pattern_sound:
  assumes "match_items pattern s = Some gs"
  shows "\<exists>d w c rest. gs = [d, c]
           \<and> s = ''linear-gradient('' @ d @ '','' @ w @ c @ '')'' @ rest
           \<and> d \<noteq> [] \<and> CHR '','' \<notin> set d \<and> list_all is_space w
           \<and> c \<noteq> [] \<and> CHR 0x0A \<notin> set c"
proof -
  define s1 where "s1 = drop (length ''linear-gradient('') s"
  let ?r5 = "[Lit '')'']"
  let ?r4 = "Rep 1 (\<lambda>c. c \<noteq> CHR 0x0A) True # ?r5"
  let ?r3 = "Rep 0 is_space False # ?r4"
  let ?r2 = "Lit '','' # ?r3"
  let ?r1 = "Rep 1 (\<lambda>c. c \<noteq> CHR '','') True # ?r2"
  from assms have p0: "prefix ''linear-gradient('' s" and m1: "match_items ?r1 s1 = Some gs"
    unfolding pattern_def s1_def by (blast dest: match_Lit_Some)+
  from match_Rep_Some [OF m1] obtain k1 g1 where
    k1: "1 \<le> k1" "k1 \<le> length (takeWhile (\<lambda>c. c \<noteq> CHR '','') s1)"
    and m2: "match_items ?r2 (drop k1 s1) = Some g1" and gs: "gs = take k1 s1 # g1"
    by auto
  define s2 where "s2 = drop (length '','') (drop k1 s1)"
  from m2 have p2: "prefix '','' (drop k1 s1)" and m3: "match_items ?r3 s2 = Some g1"
    unfolding s2_def by (blast dest: match_Lit_Some)+
  from match_Rep_Some [OF m3] obtain k2 where
    k2: "k2 \<le> length (takeWhile is_space s2)"
    and m4: "match_items ?r4 (drop k2 s2) = Some g1"
    by auto
  from match_Rep_Some [OF m4] obtain k3 g3 where
    k3: "1 \<le> k3" "k3 \<le> length (takeWhile (\<lambda>c. c \<noteq> CHR 0x0A) (drop k2 s2))"
    and m5: "match_items ?r5 (drop k3 (drop k2 s2)) = Some g3"
    and g1: "g1 = take k3 (drop k2 s2) # g3"
    by auto
  from match_Lit_Some [OF m5] have p5: "prefix '')'' (drop k3 (drop k2 s2))" and g3: "g3 = []"
    by simp_all
  define d where "d = take k1 s1"
  define w where "w = take k2 s2"
  define c where "c = take k3 (drop k2 s2)"
  define rest where "rest = drop (length '')'') (drop k3 (drop k2 s2))"
  have e0: "s = ''linear-gradient('' @ s1" unfolding s1_def by (rule prefix_split [OF p0])
  have e1: "s1 = d @ drop k1 s1" by (simp add: d_def)
  have e2: "drop k1 s1 = '','' @ s2" unfolding s2_def by (rule prefix_split [OF p2])
  have e3: "s2 = w @ drop k2 s2" by (simp add: w_def)
  have e4: "drop k2 s2 = c @ drop k3 (drop k2 s2)"
    unfolding c_def by (rule append_take_drop_id [symmetric])
  have e5: "drop k3 (drop k2 s2) = '')'' @ rest" unfolding rest_def by (rule prefix_split [OF p5])
  have e: "s = ''linear-gradient('' @ d @ '','' @ w @ c @ '')'' @ rest"
    using e0 e1 e2 e3 e4 e5 by metis
  have l1: "k1 \<le> length s1"
    using k1(2) length_takeWhile_le [of "\<lambda>c. c \<noteq> CHR '',''" s1] by simp
  have l3: "k3 \<le> length (drop k2 s2)"
    using k3(2) length_takeWhile_le [of "\<lambda>c. c \<noteq> CHR 0x0A" "drop k2 s2"] by simp
  have dn: "d \<noteq> []" using k1(1) l1 by (auto simp: d_def)
  have cn: "c \<noteq> []" using k3(1) l3 by (auto simp: c_def)
  have dc: "CHR '','' \<notin> set d" using take_in_class [OF k1(2)] by (auto simp: d_def)
  have ws: "list_all is_space w" using take_in_class [OF k2] by (simp add: w_def list_all_iff)
  have cc: "CHR 0x0A \<notin> set c" using take_in_class [OF k3(2)] by (auto simp: c_def)
  have "gs = [d, c]" by (simp add: gs g1 g3 d_def c_def)
  with e dn dc ws cn cc show ?thesis by blast
qed

lemma match_pattern_complete:
  assumes "s = ''linear-gradient('' @ d @ '','' @ w @ c @ '')'' @ rest"
    and "d \<noteq> []" and "CHR '','' \<notin> set d" and "list_all is_space w"
    and "c \<noteq> []" and "CHR 0x0A \<notin> set c"
  shows "match_items pattern s \<noteq> None"
proof -
  let ?r5 = "[Lit '')'']"
  let ?r4 = "Rep 1 (\<lambda>c. c \<noteq> CHR 0x0A) True # ?r5"
  let ?r3 = "Rep 0 is_space False # ?r4"
  let ?r2 = "Lit '','' # ?r3"
  let ?r1 = "Rep 1 (\<lambda>c. c \<noteq> CHR '','') True # ?r2"
  have m5: "match_items ?r5 ('')'' @ rest) \<noteq> None" by simp
  have m4: "match_items ?r4 (c @ '')'' @ rest) \<noteq> None"
  proof
    assume "match_items ?r4 (c @ '')'' @ rest) = None"
    then have "1 \<le> length c \<and> length c \<le> length (takeWhile (\<lambda>x. x \<noteq> CHR 0x0A) (c @ '')'' @ rest))
                \<longrightarrow> match_items ?r5 (drop (length c) (c @ '')'' @ rest)) = None"
      unfolding match_Rep_None by blast
    moreover have "1 \<le> length c" using assms(5) by (cases c) auto
    moreover have "length c \<le> length (takeWhile (\<lambda>x. x \<noteq> CHR 0x0A) (c @ '')'' @ rest))"
      using assms(6) by (intro class_prefix_le) auto
    ultimately show False using m5 by simp
  qed
  have m3: "match_items ?r3 (w @ c @ '')'' @ rest) \<noteq> None"
  proof
    assume "match_items ?r3 (w @ c @ '')'' @ rest) = None"
    then have "0 \<le> length w \<and> length w \<le> length (takeWhile is_space (w @ c @ '')'' @ rest))
                \<longrightarrow> match_items ?r4 (drop (length w) (w @ c @ '')'' @ rest)) = None"
      unfolding match_Rep_None by blast
    moreover have "length w \<le> length (takeWhile is_space (w @ c @ '')'' @ rest))"
      using assms(4) by (intro class_prefix_le) (simp add: list_all_iff)
    ultimately show False using m4 by simp
  qed
  have m2: "match_items ?r2 ('','' @ w @ c @ '')'' @ rest) \<noteq> None"
    using m3 by simp
  have m1: "match_items ?r1 (d @ '','' @ w @ c @ '')'' @ rest) \<noteq> None"
  proof
    assume "match_items ?r1 (d @ '','' @ w @ c @ '')'' @ rest) = None"
    then have "1 \<le> length d \<and> length d \<le> length (takeWhile (\<lambda>x. x \<noteq> CHR '','') (d @ '','' @ w @ c @ '')'' @ rest))
                \<longrightarrow> match_items ?r2 (drop (length d) (d @ '','' @ w @ c @ '')'' @ rest)) = None"
      unfolding match_Rep_None by blast
    moreover have "1 \<le> length d" using assms(2) by (cases d) auto
    moreover have "length d \<le> length (takeWhile (\<lambda>x. x \<noteq> CHR '','') (d @ '','' @ w @ c @ '')'' @ rest))"
      using assms(3) by (intro class_prefix_le) auto
    ultimately show False using m2 by simp
  qed
  show ?thesis unfolding pattern_def assms(1) using m1 by simp
qed

lemma re_match_None: "(re_match s = None) = (match_items pattern s = None)"
proof (cases "match_items pattern s")
  case None
  then show ?thesis by (simp add: re_match_def)
next
  case (Some gs)
  from match_pattern_sound [OF Some] obtain d c where "gs = [d, c]" by blast
  with Some show ?thesis by (simp add: re_match_def)
qed

lemma re_match_Some: "(re_match s = Some (d, c)) = (match_items pattern s = Some [d, c])"
proof (cases "match_items pattern s")
  case None
  then show ?thesis by (simp add: re_match_def)
next
  case (Some gs)
  from match_pattern_sound [OF Some] obtain d' c' where "gs = [d', c']" by blast
  with Some show ?thesis by (simp add: re_match_def)
qed

lemma re_match_shape: "(re_match s \<noteq> None) = gradient_shape s"
proof
  assume "re_match s \<noteq> None"
  then obtain gs where "match_items pattern s = Some gs" by (auto simp: re_match_None)
  from match_pattern_sound [OF this] show "gradient_shape s"
    unfolding gradient_shape_def by blast
next
  assume "gradient_shape s"
  then obtain d w c rest where "s = ''linear-gradient('' @ d @ '','' @ w @ c @ '')'' @ rest"
    "d \<noteq> []" "CHR '','' \<notin> set d" "list_all is_space w" "c \<noteq> []" "CHR 0x0A \<notin> set c"
    unfolding gradient_shape_def by blast
  from match_pattern_complete [OF this] show "re_match s \<noteq> None"
    by (simp add: re_match_None)
qed

lemma re_match_parts:
  assumes "re_match s = Some (d, c)"
  shows "d = direction_clause s
       \<and> (\<exists>w rest. s = ''linear-gradient('' @ d @ '','' @ w @ c @ '')'' @ rest
             \<and> list_all is_space w \<and> c \<noteq> [] \<and> CHR 0x0A \<notin> set c)"
proof -
  from assms have "match_items pattern s = Some [d, c]" by (simp add: re_match_Some)
  from match_pattern_sound [OF this] obtain w rest where
    e: "s = ''linear-gradient('' @ d @ '','' @ w @ c @ '')'' @ rest"
    and p: "CHR '','' \<notin> set d" "list_all is_space w" "c \<noteq> []" "CHR 0x0A \<notin> set c"
    by auto
  have "drop 16 s = d @ CHR '','' # w @ c @ '')'' @ rest" unfolding e by simp
  then have "direction_clause s = d"
    unfolding direction_clause_def using p(1) by (auto simp: takeWhile_tail)
  then have dd: "d = direction_clause s" by simp
  have "\<exists>w rest. s = ''linear-gradient('' @ d @ '','' @ w @ c @ '')'' @ rest
             \<and> list_all is_space w \<and> c \<noteq> [] \<and> CHR 0x0A \<notin> set c"
    using e p(2,3,4) by (intro exI conjI)
  with dd show ?thesis by (intro conjI)
qed

lemma contains_iff: "contains p s = (\<exists>a b. s = a @ p @ b)"
proof (induction s)
  case Nil
  then show ?case by auto
next
  case (Cons x s)
  show ?case
  proof
    assume "contains p (x # s)"
    then consider "prefix p (x # s)" | "contains p s" by auto
    then show "\<exists>a b. x # s = a @ p @ b"
    proof cases
      case 1
      then obtain b where "x # s = p @ b" by (auto simp: prefix_def)
      then have "x # s = [] @ p @ b" by simp
      then show ?thesis by blast
    next
      case 2
      with Cons obtain a b where "s = a @ p @ b" by blast
      then have "x # s = (x # a) @ p @ b" by simp
      then show ?thesis by blast
    qed
  next
    assume "\<exists>a b. x # s = a @ p @ b"
    then obtain a b where e: "x # s = a @ p @ b" by blast
    show "contains p (x # s)"
    proof (cases a)
      case Nil
      with e have "prefix p (x # s)" by (simp add: prefix_def)
      then show ?thesis by simp
    next
      case (Cons y a')
      with e have "s = a' @ p @ b" by simp
      with Cons.IH show ?thesis by auto
    qed
  qed
qed

lemma parse_cases:
  "parse_css_gradient s =
     (case re_match s of None \<Rightarrow> Inl InvalidFormat
      | Some (d, c) \<Rightarrow> if contains ''to right'' d then Inr (map strip (split_on CHR '','' c))
                       else Inl UnsupportedDirection)"
  by (simp add: parse_css_gradient_def split: option.splits)

text \<open>
  Claim C7, as the code has it. \<^verbatim>\<open>parse_css_gradient\<close> raises the unsupported-direction
  error if and only if the input has the general shape and its direction clause, the text
  between the opening parenthesis and the first comma, does not contain \<^verbatim>\<open>to right\<close> as a
  contiguous substring. The direction \<^verbatim>\<open>to left\<close> raises the error and \<^verbatim>\<open>to right top\<close> is
  accepted.
\<close>

theorem direction_check:
  "(parse_css_gradient s = Inl UnsupportedDirection)
     = (gradient_shape s \<and> \<not> contains ''to right'' (direction_clause s))
   \<and> contains ''to right'' (direction_clause s)
     = (\<exists>a b. direction_clause s = a @ ''to right'' @ b)
   \<and> direction_clause ''linear-gradient(to left, #fff, #000)'' = ''to left''
   \<and> parse_css_gradient ''linear-gradient(to left, #fff, #000)'' = Inl UnsupportedDirection
   \<and> direction_clause ''linear-gradient(to right top, #fff, #000)'' = ''to right top''
   \<and> parse_css_gradient ''linear-gradient(to right top, #fff, #000)'' = Inr [''#fff'', ''#000'']"
proof -
  have 1: "(parse_css_gradient s = Inl UnsupportedDirection)
     = (gradient_shape s \<and> \<not> contains ''to right'' (direction_clause s))"
  proof (cases "re_match s")
    case None
    then have "\<not> gradient_shape s" using re_match_shape [of s] by blast
    with None show ?thesis by (simp add: parse_cases)
  next
    case (Some g)
    obtain d c where g: "g = (d, c)" by (cases g)
    from Some g re_match_parts [of s d c] have d: "d = direction_clause s" by simp
    from Some have "gradient_shape s" using re_match_shape [of s] by blast
    with Some g d show ?thesis by (simp add: parse_cases)
  qed
  have 2: "contains ''to right'' (direction_clause s)
     = (\<exists>a b. direction_clause s = a @ ''to right'' @ b)"
    by (rule contains_iff)
  have 3: "direction_clause ''linear-gradient(to left, #fff, #000)'' = ''to left''"
    by (simp add: direction_clause_def)
  have 4: "parse_css_gradient ''linear-gradient(to left, #fff, #000)'' = Inl UnsupportedDirection"
    by code_simp
  have 5: "direction_clause ''linear-gradient(to right top, #fff, #000)'' = ''to right top''"
    by (simp add: direction_clause_def)
  have 6: "parse_css_gradient ''linear-gradient(to right top, #fff, #000)'' = Inr [''#fff'', ''#000'']"
    by code_simp
  from 1 2 3 4 5 6 show ?thesis by (intro conjI)
qed

text \<open>
  The claim as written has no condition on the rest of the input. In
  \<^verbatim>\<open>linear-gradient(to left, #fff\<close> the direction clause is \<^verbatim>\<open>to left\<close>, without
  \<^verbatim>\<open>to right\<close>, but the closing parenthesis is missing and the error raised is the
  format error.
\<close>

theorem direction_check_counterexample:
  "direction_clause ''linear-gradient(to left, #fff'' = ''to left''
   \<and> \<not> contains ''to right'' ''to left''
   \<and> parse_css_gradient ''linear-gradient(to left, #fff'' = Inl InvalidFormat"
proof -
  have 1: "direction_clause ''linear-gradient(to left, #fff'' = ''to left''"
    by (simp add: direction_clause_def)
  have 2: "\<not> contains ''to right'' ''to left''" by simp
  have 3: "parse_css_gradient ''linear-gradient(to left, #fff'' = Inl InvalidFormat"
    by code_simp
  from 1 2 3 show ?thesis by (intro conjI)
qed






section \<open>The whole run\<close>

lemma parse_nonempty: "parse_css_gradient css = Inr colors \<Longrightarrow> colors \<noteq> []"
  by (auto simp: parse_cases split_on_nonempty split: option.splits if_splits)

lemma create_single:
  "create_gimp_gradient str_float name [c]
     = Inr (''GIMP Gradient'' @ [CHR 0x0A] @ ''Name: '' @ name @ [CHR 0x0A] @ ''0'')"
proof -
  have "length [c] < 2 \<or> (\<forall>x \<in> set [c]. converts x)" by simp
  from create_ok [OF this, of str_float name] show ?thesis
    by (simp add: str_int_count(2))
qed

lemma main_cases:
  "main str_float expanduser css name output w =
     (case parse_css_gradient css of Inl e \<Rightarrow> (Inl e, w)
      | Inr colors \<Rightarrow>
     (case create_gimp_gradient str_float name colors of Inl e \<Rightarrow> (Inl e, w)
      | Inr content \<Rightarrow>
     (case write_gimp_gradient_file content (path_join (expanduser output) (name @ ''.ggr'')) w of
        (Inl e, w') \<Rightarrow> (Inl e, w')
      | (Inr u, w') \<Rightarrow>
          (Inr (), w'\<lparr>stdout := stdout w' @ [''GIMP gradient saved to: ''
                                    @ path_join (expanduser output) (name @ ''.ggr'')]\<rparr>))))"
  by (simp add: main_def Let_def)

lemma write_unchanged:
  "\<not> openable w file_path \<Longrightarrow> write_gimp_gradient_file content file_path w = (Inl OSError, w)"
  by (simp add: write_gimp_gradient_file_def)

lemma write_files:
  "openable w file_path \<Longrightarrow>
   files (snd (write_gimp_gradient_file content file_path w))
     = (files w)(file_path \<mapsto> (case write_failure w file_path content of
                                   None \<Rightarrow> content | Some (e, left) \<Rightarrow> left))"
  by (simp add: write_gimp_gradient_file_def split: option.splits)

text \<open>
  Claim C5, as the code has it. The parser never returns an empty list, so a parsed list
  of fewer than two colours has exactly one. For such an input neither the parser nor the
  builder raises an error: the loop of the builder runs zero times, the colour is not
  converted and nothing is divided, and the output is the header with the count \<^verbatim>\<open>0\<close> and
  no segment line.
\<close>

theorem single_colour_no_error:
  assumes "parse_css_gradient css = Inr colors" and "length colors < 2"
  shows "length colors = 1
       \<and> create_gimp_gradient str_float name colors
           = Inr (''GIMP Gradient'' @ [CHR 0x0A] @ ''Name: '' @ name @ [CHR 0x0A] @ ''0'')"
proof -
  from parse_nonempty [OF assms(1)] assms(2) obtain c where c: "colors = [c]"
    by (cases colors) auto
  have 1: "length colors = 1" by (simp add: c)
  have 2: "create_gimp_gradient str_float name colors
           = Inr (''GIMP Gradient'' @ [CHR 0x0A] @ ''Name: '' @ name @ [CHR 0x0A] @ ''0'')"
    unfolding c by (rule create_single)
  from 1 2 show ?thesis by (intro conjI)
qed

lemma parse_single: "parse_css_gradient ''linear-gradient(to right, #fbb040)'' = Inr [''#fbb040'']"
  by code_simp

text \<open>The theorem at the single-colour input \<^verbatim>\<open>linear-gradient(to right, #fbb040)\<close>.\<close>

theorem single_colour_no_error_witness:
  "parse_css_gradient ''linear-gradient(to right, #fbb040)'' = Inr [''#fbb040'']
   \<and> length [''#fbb040''] < 2
   \<and> create_gimp_gradient repr_sample ''Custom Gradient'' [''#fbb040'']
       = Inr ''GIMP Gradient\<newline>Name: Custom Gradient\<newline>0''"
proof -
  have 2: "length [''#fbb040''] < 2" by simp
  have "create_gimp_gradient repr_sample ''Custom Gradient'' [''#fbb040'']
       = Inr (''GIMP Gradient'' @ [CHR 0x0A] @ ''Name: '' @ ''Custom Gradient'' @ [CHR 0x0A] @ ''0'')"
    by (rule single_colour_no_error [OF parse_single 2, THEN conjunct2])
  then have "create_gimp_gradient repr_sample ''Custom Gradient'' [''#fbb040'']
       = Inr ''GIMP Gradient\<newline>Name: Custom Gradient\<newline>0''"
    by simp
  with parse_single 2 show ?thesis by (intro conjI)
qed

text \<open>
  The claim as written asks for an error on the single-colour input
  \<^verbatim>\<open>linear-gradient(to right, #fbb040)\<close>. It parses to one token, the builder returns
  the header with the count \<^verbatim>\<open>0\<close>, and the run ends without an error.
\<close>

theorem single_colour_counterexample:
  "parse_css_gradient ''linear-gradient(to right, #fbb040)'' = Inr [''#fbb040'']
   \<and> length [''#fbb040''] < 2
   \<and> create_gimp_gradient repr_sample ''Custom Gradient'' [''#fbb040'']
       = Inr ''GIMP Gradient\<newline>Name: Custom Gradient\<newline>0''"
proof -
  have 1: "parse_css_gradient ''linear-gradient(to right, #fbb040)'' = Inr [''#fbb040'']"
    by code_simp
  have 2: "length [''#fbb040''] < 2" by simp
  have 3: "create_gimp_gradient repr_sample ''Custom Gradient'' [''#fbb040'']
       = Inr ''GIMP Gradient\<newline>Name: Custom Gradient\<newline>0''"
    unfolding create_single by simp
  from 1 2 3 show ?thesis by (intro conjI)
qed


text \<open>
  Claim C9. When parsing fails, or parsing succeeds and building the gradient fails, the
  run returns that error and leaves the world as it was: no file is opened or written and
  nothing is printed. The world changes only when parsing and building have both
  succeeded and the file could be opened; the file then holds the built content, or what
  a failed write left of it.
\<close>

theorem abort_before_write:
  "(parse_css_gradient css = Inl e \<longrightarrow>
      main str_float expanduser css name output w = (Inl e, w))
   \<and> (parse_css_gradient css = Inr colors \<and> create_gimp_gradient str_float name colors = Inl e \<longrightarrow>
      main str_float expanduser css name output w = (Inl e, w))
   \<and> (snd (main str_float expanduser css name output w) \<noteq> w \<longrightarrow>
      (\<exists>colors content. parse_css_gradient css = Inr colors
         \<and> create_gimp_gradient str_float name colors = Inr content
         \<and> openable w (path_join (expanduser output) (name @ ''.ggr''))
         \<and> files (snd (main str_float expanduser css name output w))
             = (files w)(path_join (expanduser output) (name @ ''.ggr'')
                  \<mapsto> (case write_failure w (path_join (expanduser output) (name @ ''.ggr'')) content of
                        None \<Rightarrow> content | Some (e, left) \<Rightarrow> left))))"
proof (intro conjI impI)
  assume "parse_css_gradient css = Inl e"
  then show "main str_float expanduser css name output w = (Inl e, w)"
    by (simp add: main_cases)
next
  assume "parse_css_gradient css = Inr colors \<and> create_gimp_gradient str_float name colors = Inl e"
  then show "main str_float expanduser css name output w = (Inl e, w)"
    by (simp add: main_cases)
next
  let ?path = "path_join (expanduser output) (name @ ''.ggr'')"
  assume a: "snd (main str_float expanduser css name output w) \<noteq> w"
  show "\<exists>colors content. parse_css_gradient css = Inr colors
         \<and> create_gimp_gradient str_float name colors = Inr content
         \<and> openable w ?path
         \<and> files (snd (main str_float expanduser css name output w))
             = (files w)(?path \<mapsto> (case write_failure w ?path content of
                                     None \<Rightarrow> content | Some (e, left) \<Rightarrow> left))"
  proof (cases "parse_css_gradient css")
    case (Inl e')
    with a show ?thesis by (simp add: main_cases)
  next
    case p: (Inr colors')
    show ?thesis
    proof (cases "create_gimp_gradient str_float name colors'")
      case (Inl e')
      with a p show ?thesis by (simp add: main_cases)
    next
      case c: (Inr content')
      have o: "openable w ?path"
      proof (rule ccontr)
        assume "\<not> openable w ?path"
        from write_unchanged [OF this] a p c show False by (simp add: main_cases)
      qed
      have "files (snd (main str_float expanduser css name output w))
            = files (snd (write_gimp_gradient_file content' ?path w))"
        using p c by (cases "write_gimp_gradient_file content' ?path w")
                     (auto simp: main_cases split: sum.splits)
      with write_files [OF o, of content']
      have "files (snd (main str_float expanduser css name output w))
             = (files w)(?path \<mapsto> (case write_failure w ?path content' of
                                     None \<Rightarrow> content' | Some (e, left) \<Rightarrow> left))"
        by simp
      with p c o show ?thesis by (intro exI conjI)
    qed
  qed
qed

lemma parse_bad_colour:
  "parse_css_gradient ''linear-gradient(to right, #xyz123, #000000)'' = Inr [''#xyz123'', ''#000000'']"
  by code_simp

lemma parse_bad_shape: "parse_css_gradient ''to right, #fff, #000'' = Inl InvalidFormat"
  by code_simp

lemma parse_black_white:
  "parse_css_gradient ''linear-gradient(to right, #000000, #ffffff)'' = Inr [''#000000'', ''#ffffff'']"
  by code_simp

lemma create_bad_colour:
  "create_gimp_gradient str_float name [''#xyz123'', ''#000000''] = Inl InvalidLiteral"
proof -
  have "\<not> converts ''#xyz123''"
    by (simp add: converts_def hex_to_rgb_def slice_def int16_def int_strip_def is_int_space_def
          strip_sign_def strip_0x_def hex_val_def)
  then show ?thesis
    by (simp add: create_gimp_gradient_def build_segments_eq)
qed

text \<open>
  The theorem at an input that does not parse, at one whose first colour does not
  convert, and at the gradient from black to white, which is written.
\<close>

theorem abort_before_write_witness:
  "parse_css_gradient ''to right, #fff, #000'' = Inl InvalidFormat
   \<and> main repr_sample (\<lambda>p. p) ''to right, #fff, #000'' ''G'' ''/tmp''
         \<lparr>files = Map.empty, openable = (\<lambda>p. True), write_failure = (\<lambda>p c. None),
            stdout = []\<rparr>
       = (Inl InvalidFormat, \<lparr>files = Map.empty, openable = (\<lambda>p. True), write_failure = (\<lambda>p c. None),
            stdout = []\<rparr>)
   \<and> parse_css_gradient ''linear-gradient(to right, #xyz123, #000000)'' = Inr [''#xyz123'', ''#000000'']
   \<and> create_gimp_gradient repr_sample ''G'' [''#xyz123'', ''#000000''] = Inl InvalidLiteral
   \<and> main repr_sample (\<lambda>p. p) ''linear-gradient(to right, #xyz123, #000000)'' ''G'' ''/tmp''
         \<lparr>files = Map.empty, openable = (\<lambda>p. True), write_failure = (\<lambda>p c. None),
            stdout = []\<rparr>
       = (Inl InvalidLiteral, \<lparr>files = Map.empty, openable = (\<lambda>p. True), write_failure = (\<lambda>p c. None),
            stdout = []\<rparr>)
   \<and> snd (main repr_sample (\<lambda>p. p) ''linear-gradient(to right, #000000, #ffffff)'' ''G'' ''/tmp''
         \<lparr>files = Map.empty, openable = (\<lambda>p. True), write_failure = (\<lambda>p c. None),
            stdout = []\<rparr>)
       \<noteq> \<lparr>files = Map.empty, openable = (\<lambda>p. True), write_failure = (\<lambda>p c. None),
            stdout = []\<rparr>
   \<and> (\<exists>colors content.
         parse_css_gradient ''linear-gradient(to right, #000000, #ffffff)'' = Inr colors
       \<and> create_gimp_gradient repr_sample ''G'' colors = Inr content)"
proof -
  let ?w = "\<lparr>files = Map.empty, openable = (\<lambda>p. True), write_failure = (\<lambda>p c. None),
            stdout = []\<rparr>"
  let ?ok = "''linear-gradient(to right, #000000, #ffffff)''"
  have 1: "main repr_sample (\<lambda>p. p) ''to right, #fff, #000'' ''G'' ''/tmp'' ?w = (Inl InvalidFormat, ?w)"
    by (rule abort_before_write [THEN conjunct1, THEN mp, OF parse_bad_shape])
  have b: "parse_css_gradient ''linear-gradient(to right, #xyz123, #000000)'' = Inr [''#xyz123'', ''#000000'']
           \<and> create_gimp_gradient repr_sample ''G'' [''#xyz123'', ''#000000''] = Inl InvalidLiteral"
    using parse_bad_colour create_bad_colour by (intro conjI)
  have 2: "main repr_sample (\<lambda>p. p) ''linear-gradient(to right, #xyz123, #000000)'' ''G'' ''/tmp'' ?w
           = (Inl InvalidLiteral, ?w)"
    by (rule abort_before_write [THEN conjunct2, THEN conjunct1, THEN mp, OF b])
  have "stdout (snd (main repr_sample (\<lambda>p. p) ?ok ''G'' ''/tmp'' ?w)) \<noteq> stdout ?w"
    by (simp add: main_cases parse_black_white black_white_output write_gimp_gradient_file_def)
  then have 3: "snd (main repr_sample (\<lambda>p. p) ?ok ''G'' ''/tmp'' ?w) \<noteq> ?w" by metis
  from abort_before_write [THEN conjunct2, THEN conjunct2, THEN mp, OF 3]
  have 4: "\<exists>colors content. parse_css_gradient ?ok = Inr colors
       \<and> create_gimp_gradient repr_sample ''G'' colors = Inr content"
    by (elim exE conjE) (intro exI conjI)
  from parse_bad_shape 1 parse_bad_colour create_bad_colour 2 3 4 show ?thesis by (intro conjI)
qed

end
